theory Spec2Isabelle
  imports Complex_Main "HOL-Library.Multiset"
begin

section \<open>Tensors of the CPU fallback for fused attention\<close>

text \<open>
  The module \<^verbatim>\<open>flash_attention_fallback.py\<close> computes scaled dot-product attention with
  generic tensor primitives. A tensor is modelled by its shape, its numeric class and its
  elements in row-major order. Elements are real numbers: rounding of the floating-point
  formats is not modelled, so every statement below is about the exact arithmetic that the
  floating-point computation approximates.
\<close>

datatype dtype = Float16 | BFloat16 | Float32 | Float64

record 'a tensor =
  shape :: "nat list"
  dtype :: dtype
  data :: "'a list"

text \<open>Exceptions that the interpreter and the tensor library raise on the paths of this module.\<close>

datatype error =
    ValueError_unpack         \<comment> \<open>tuple unpacking of a shape that has not four entries\<close>
  | ZeroDivisionError         \<comment> \<open>\<^verbatim>\<open>0 ** -0.5\<close>\<close>
  | IndexError_dim            \<comment> \<open>a dimension out of range in \<^verbatim>\<open>transpose\<close>\<close>
  | RuntimeError_reshape      \<comment> \<open>\<^verbatim>\<open>reshape\<close> to a shape of another element count\<close>
  | RuntimeError_matmul_shape \<comment> \<open>\<^verbatim>\<open>matmul\<close> of operands whose sizes do not fit\<close>
  | RuntimeError_matmul_dtype \<comment> \<open>\<^verbatim>\<open>matmul\<close> of operands of two numeric classes\<close>
  | RuntimeError_triu         \<comment> \<open>\<^verbatim>\<open>triu\<close> of a tensor of fewer than two dimensions\<close>
  | Nonfinite_operand         \<comment> \<open>not an exception: an operand holding minus infinity, which real
                                  arithmetic does not cover\<close>

text \<open>A score after masking is a real number or minus infinity.\<close>

datatype score = NegInf | Fin real

subsection \<open>Row-major indexing\<close>

text \<open>All multi-indices of a shape, in row-major order.\<close>

fun indices :: "nat list \<Rightarrow> nat list list" where
  "indices [] = [[]]"
| "indices (n # ns) = concat (map (\<lambda>i. map ((#) i) (indices ns)) [0..<n])"

text \<open>The strides of a contiguous tensor of the given shape.\<close>

fun strides_of :: "nat list \<Rightarrow> nat list" where
  "strides_of [] = []"
| "strides_of (n # ns) = prod_list ns # strides_of ns"

fun offset_of :: "nat list \<Rightarrow> nat list \<Rightarrow> nat" where
  "offset_of (s # ss) (i # js) = i * s + offset_of ss js"
| "offset_of _ _ = 0"

definition flat_index :: "nat list \<Rightarrow> nat list \<Rightarrow> nat" where
  "flat_index shp idx = offset_of (strides_of shp) idx"

definition elem_at :: "'a tensor \<Rightarrow> nat list \<Rightarrow> 'a" where
  "elem_at t idx = data t ! flat_index (shape t) idx"

definition tabulate :: "nat list \<Rightarrow> dtype \<Rightarrow> (nat list \<Rightarrow> 'a) \<Rightarrow> 'a tensor" where
  "tabulate shp dt f = \<lparr>shape = shp, dtype = dt, data = map f (indices shp)\<rparr>"

definition well_formed :: "'a tensor \<Rightarrow> bool" where
  "well_formed t \<longleftrightarrow> length (data t) = prod_list (shape t)"

definition valid_index :: "nat list \<Rightarrow> nat list \<Rightarrow> bool" where
  "valid_index shp idx \<longleftrightarrow> list_all2 (<) idx shp"

definition swap_at :: "nat \<Rightarrow> nat \<Rightarrow> 'a list \<Rightarrow> 'a list" where
  "swap_at i j xs = xs[i := xs ! j, j := xs ! i]"

subsection \<open>The tensor primitives that the module calls\<close>

text \<open>
  \<^verbatim>\<open>t.transpose(d0, d1)\<close>: a dimension \<open>d\<close> of a tensor of \<open>n\<close> dimensions is in range when
  \<open>-n \<le> d < n\<close>, a negative one counting from the end.
\<close>

definition wrap_dim :: "nat \<Rightarrow> int \<Rightarrow> error + nat" where
  "wrap_dim n d =
     (if - int n \<le> d \<and> d < int n then Inr (nat (if d < 0 then d + int n else d))
      else Inl IndexError_dim)"

definition transpose_t :: "int \<Rightarrow> int \<Rightarrow> 'a tensor \<Rightarrow> error + 'a tensor" where
  "transpose_t d0 d1 t =
     (case wrap_dim (length (shape t)) d0 of
        Inl e \<Rightarrow> Inl e
      | Inr a \<Rightarrow>
          (case wrap_dim (length (shape t)) d1 of
             Inl e \<Rightarrow> Inl e
           | Inr b \<Rightarrow>
               Inr (tabulate (swap_at a b (shape t)) (dtype t)
                      (\<lambda>idx. elem_at t (swap_at a b idx)))))"

text \<open>\<^verbatim>\<open>t.reshape(sizes)\<close> with explicit sizes: the elements keep their row-major order.\<close>

definition reshape :: "nat list \<Rightarrow> 'a tensor \<Rightarrow> error + 'a tensor" where
  "reshape shp t =
     (if prod_list shp = length (data t) then Inr (t\<lparr>shape := shp\<rparr>)
      else Inl RuntimeError_reshape)"

text \<open>
  \<^verbatim>\<open>torch.matmul\<close> on two tensors of three dimensions is the batched matrix product. The
  module reshapes every operand to three explicit sizes first, so no other case of
  \<^verbatim>\<open>matmul\<close> is reached.
\<close>

definition matmul :: "real tensor \<Rightarrow> real tensor \<Rightarrow> error + real tensor" where
  "matmul a b =
     (case (shape a, shape b) of
        ([n, s, d], [n', d', t]) \<Rightarrow>
          if n = n' \<and> d = d' then
            if dtype a = dtype b then
              Inr (tabulate [n, s, t] (dtype a)
                     (\<lambda>idx. \<Sum>l\<leftarrow>[0..<d]. elem_at a [idx ! 0, idx ! 1, l] * elem_at b [idx ! 0, l, idx ! 2]))
            else Inl RuntimeError_matmul_dtype
          else Inl RuntimeError_matmul_shape
      | _ \<Rightarrow> Inl RuntimeError_matmul_shape)"

text \<open>\<^verbatim>\<open>t * c\<close> for a Python float \<open>c\<close>.\<close>

definition mul_scalar :: "real tensor \<Rightarrow> real \<Rightarrow> real tensor" where
  "mul_scalar t c = t\<lparr>data := map (\<lambda>x. x * c) (data t)\<rparr>"

definition ones_like :: "'a tensor \<Rightarrow> real tensor" where
  "ones_like t = \<lparr>shape = shape t, dtype = dtype t, data = replicate (length (data t)) 1\<rparr>"

text \<open>
  \<^verbatim>\<open>torch.triu(t, diagonal=g)\<close> keeps the elements of each matrix (the last two dimensions)
  whose column minus row is at least \<open>g\<close> and zeroes the others; it refuses a tensor of
  fewer than two dimensions.
\<close>

definition triu :: "int \<Rightarrow> real tensor \<Rightarrow> error + real tensor" where
  "triu g t =
     (if length (shape t) < 2 then Inl RuntimeError_triu
      else Inr (tabulate (shape t) (dtype t)
             (\<lambda>idx. if g \<le> int (last idx) - int (last (butlast idx)) then elem_at t idx else 0)))"

text \<open>
  \<^verbatim>\<open>t.bool()\<close>: an element is true when it is not zero. The class field of the record is
  kept as it is; no operation reads it on a mask.
\<close>

definition to_bool :: "real tensor \<Rightarrow> bool tensor" where
  "to_bool t = \<lparr>shape = shape t, dtype = dtype t, data = map (\<lambda>x. x \<noteq> 0) (data t)\<rparr>"

text \<open>
  \<^verbatim>\<open>scores.masked_fill_(mask, float('-inf'))\<close> for a mask of the shape of the scores. The
  scores that are not masked stay finite; \<open>finite_scores\<close> is the same tensor read as
  scores when no mask is applied.
\<close>

definition masked_fill_neg_inf :: "real tensor \<Rightarrow> bool tensor \<Rightarrow> score tensor" where
  "masked_fill_neg_inf t m =
     \<lparr>shape = shape t, dtype = dtype t,
      data = map2 (\<lambda>x b. if b then NegInf else Fin x) (data t) (data m)\<rparr>"

definition finite_scores :: "real tensor \<Rightarrow> score tensor" where
  "finite_scores t = \<lparr>shape = shape t, dtype = dtype t, data = map Fin (data t)\<rparr>"

text \<open>
  \<^verbatim>\<open>F.softmax(scores, dim=-1)\<close>: every row along the last dimension is exponentiated and
  divided by its sum; the exponential of minus infinity is zero. A tensor without
  dimensions is one row of one element.
\<close>

fun exp_score :: "score \<Rightarrow> real" where
  "exp_score NegInf = 0"
| "exp_score (Fin x) = exp x"

definition row_length :: "nat list \<Rightarrow> nat" where
  "row_length shp = (if shp = [] then 1 else last shp)"

definition softmax :: "score tensor \<Rightarrow> real tensor" where
  "softmax t =
     tabulate (shape t) (dtype t)
       (\<lambda>idx. exp_score (elem_at t idx) /
               (\<Sum>j\<leftarrow>[0..<row_length (shape t)]. exp_score (elem_at t (butlast idx @ [j]))))"

subsection \<open>The entry points\<close>

text \<open>\<^verbatim>\<open>batch, seqlen, nheads, headdim = q.shape\<close>\<close>

definition unpack4 :: "nat list \<Rightarrow> error + nat \<times> nat \<times> nat \<times> nat" where
  "unpack4 shp = (case shp of [b, s, h, d] \<Rightarrow> Inr (b, s, h, d) | _ \<Rightarrow> Inl ValueError_unpack)"

text \<open>
  \<^verbatim>\<open>if softmax_scale is None: softmax_scale = headdim ** -0.5\<close>; Python raises on a zero
  base with a negative exponent.
\<close>

definition effective_scale :: "real option \<Rightarrow> nat \<Rightarrow> error + real" where
  "effective_scale softmax_scale headdim =
     (case softmax_scale of
        Some c \<Rightarrow> Inr c
      | None \<Rightarrow> if headdim = 0 then Inl ZeroDivisionError else Inr (real headdim powr (- (1 / 2))))"

text \<open>\<^verbatim>\<open>t.transpose(1, 2).reshape(batch * nheads, seqlen, headdim)\<close>\<close>

definition to_heads :: "nat \<Rightarrow> nat \<Rightarrow> nat \<Rightarrow> nat \<Rightarrow> 'a tensor \<Rightarrow> error + 'a tensor" where
  "to_heads batch seqlen nheads headdim t =
     (case transpose_t 1 2 t of
        Inl e \<Rightarrow> Inl e
      | Inr t' \<Rightarrow> reshape [batch * nheads, seqlen, headdim] t')"

text \<open>\<^verbatim>\<open>scores = torch.matmul(q, k.transpose(-2, -1)) * softmax_scale\<close>\<close>

definition attn_scores :: "real tensor \<Rightarrow> real tensor \<Rightarrow> real \<Rightarrow> error + real tensor" where
  "attn_scores q k c =
     (case transpose_t (- 2) (- 1) k of
        Inl e \<Rightarrow> Inl e
      | Inr kt \<Rightarrow>
          (case matmul q kt of
             Inl e \<Rightarrow> Inl e
           | Inr qk \<Rightarrow> Inr (mul_scalar qk c)))"

text \<open>\<^verbatim>\<open>mask = torch.triu(torch.ones_like(scores), diagonal=1).bool()\<close>\<close>

definition causal_mask :: "real tensor \<Rightarrow> error + bool tensor" where
  "causal_mask scores =
     (case triu 1 (ones_like scores) of
        Inl e \<Rightarrow> Inl e
      | Inr upper \<Rightarrow> Inr (to_bool upper))"

text \<open>Lines 52 to 60: the scores, the causal mask when asked for, the softmax.\<close>

definition attn_weights :: "real tensor \<Rightarrow> real tensor \<Rightarrow> real \<Rightarrow> bool \<Rightarrow> error + real tensor" where
  "attn_weights q k c causal =
     (case attn_scores q k c of
        Inl e \<Rightarrow> Inl e
      | Inr scores \<Rightarrow>
          if causal then
            (case causal_mask scores of
               Inl e \<Rightarrow> Inl e
             | Inr m \<Rightarrow> Inr (softmax (masked_fill_neg_inf scores m)))
          else Inr (softmax (finite_scores scores)))"

text \<open>
  Lines 40 to 49: the four sizes of the query, the scale, and the three operands with batch
  and heads merged.
\<close>

definition prepare ::
  "real tensor \<Rightarrow> real tensor \<Rightarrow> real tensor \<Rightarrow> real option \<Rightarrow>
   error + (nat \<times> nat \<times> nat \<times> nat) \<times> real \<times> real tensor \<times> real tensor \<times> real tensor" where
  "prepare q k v softmax_scale =
     (case unpack4 (shape q) of
        Inl e \<Rightarrow> Inl e
      | Inr (batch, seqlen, nheads, headdim) \<Rightarrow>
     (case effective_scale softmax_scale headdim of
        Inl e \<Rightarrow> Inl e
      | Inr c \<Rightarrow>
     (case to_heads batch seqlen nheads headdim q of
        Inl e \<Rightarrow> Inl e
      | Inr q' \<Rightarrow>
     (case to_heads batch seqlen nheads headdim k of
        Inl e \<Rightarrow> Inl e
      | Inr k' \<Rightarrow>
     (case to_heads batch seqlen nheads headdim v of
        Inl e \<Rightarrow> Inl e
      | Inr v' \<Rightarrow> Inr ((batch, seqlen, nheads, headdim), c, q', k', v'))))))"

text \<open>
  \<open>flash_attn_func\<close>, with every parameter of the source. The warning that each call emits
  is part of the store-level model further down; this function is the value returned.
\<close>

definition flash_attn_func ::
  "real tensor \<Rightarrow> real tensor \<Rightarrow> real tensor \<Rightarrow> real \<Rightarrow> real option \<Rightarrow> bool \<Rightarrow>
   int \<times> int \<Rightarrow> real tensor option \<Rightarrow> bool \<Rightarrow> error + real tensor" where
  "flash_attn_func q k v dropout_p softmax_scale causal window_size alibi_slopes deterministic =
     (case prepare q k v softmax_scale of
        Inl e \<Rightarrow> Inl e
      | Inr ((batch, seqlen, nheads, headdim), c, q', k', v') \<Rightarrow>
     (case attn_weights q' k' c causal of
        Inl e \<Rightarrow> Inl e
      | Inr w \<Rightarrow>
     (case matmul w v' of
        Inl e \<Rightarrow> Inl e
      | Inr out \<Rightarrow>
     (case reshape [batch, nheads, seqlen, headdim] out of
        Inl e \<Rightarrow> Inl e
      | Inr out' \<Rightarrow> transpose_t 1 2 out'))))"

text \<open>\<open>flash_attn_varlen_func\<close> passes everything but the four ragged-batching arguments on.\<close>

definition flash_attn_varlen_func ::
  "real tensor \<Rightarrow> real tensor \<Rightarrow> real tensor \<Rightarrow> int list \<Rightarrow> int list \<Rightarrow> int \<Rightarrow> int \<Rightarrow>
   real \<Rightarrow> real option \<Rightarrow> bool \<Rightarrow> int \<times> int \<Rightarrow> real tensor option \<Rightarrow> bool \<Rightarrow> error + real tensor" where
  "flash_attn_varlen_func q k v cu_seqlens_q cu_seqlens_k max_seqlen_q max_seqlen_k
       dropout_p softmax_scale causal window_size alibi_slopes deterministic =
     flash_attn_func q k v dropout_p softmax_scale causal window_size alibi_slopes deterministic"

text \<open>The wrapper class \<open>FlashAttention\<close>: two fields set at construction, and \<open>forward\<close>.\<close>

record FlashAttention =
  fa_softmax_scale :: "real option"
  fa_dropout_p :: real

definition forward ::
  "FlashAttention \<Rightarrow> real tensor \<Rightarrow> real tensor \<Rightarrow> real tensor \<Rightarrow> bool \<Rightarrow> error + real tensor" where
  "forward self q k v causal =
     flash_attn_func q k v (fa_dropout_p self) (fa_softmax_scale self) causal (- 1, - 1) None False"

section \<open>Storages, views and notifications\<close>

type_synonym addr = nat

text \<open>
  A tensor object of the library is a view onto a storage: the address of the storage and,
  for every element in row-major order, its position in the storage. Two tensors alias when
  they share the address. The strides of the library are one way to write the positions
  down.
\<close>

record handle =
  h_addr :: addr
  h_view :: "nat tensor"

text \<open>
  The state of the process: the storages and the next free address, the module table entry
  of this module, what was printed, and the warnings issued. \<open>reshape\<close> returns a view where
  the library can and a copy elsewhere; \<open>reshape_as_view\<close> is that rule, left open, so that
  every statement holds for whatever rule the library follows.
\<close>

record world =
  cells :: "addr \<Rightarrow> score list"
  next_addr :: addr
  reshape_as_view :: "nat tensor \<Rightarrow> nat list \<Rightarrow> bool"
  module_loaded :: bool
  stdout :: "string list"
  warnings :: "string list"

text \<open>The elements that a tensor object shows.\<close>

definition load :: "world \<Rightarrow> handle \<Rightarrow> score tensor" where
  "load w h =
     \<lparr>shape = shape (h_view h), dtype = dtype (h_view h),
      data = map (\<lambda>p. cells w (h_addr h) ! p) (data (h_view h))\<rparr>"

text \<open>
  The elements as operands of real arithmetic. Minus infinity is outside the real numbers of
  this model and is reported as \<open>Nonfinite_operand\<close>.
\<close>

fun fin_value :: "score \<Rightarrow> real option" where
  "fin_value NegInf = None"
| "fin_value (Fin x) = Some x"

definition operand :: "world \<Rightarrow> handle \<Rightarrow> error + real tensor" where
  "operand w h =
     (case those (map fin_value (data (load w h))) of
        None \<Rightarrow> Inl Nonfinite_operand
      | Some xs \<Rightarrow> Inr \<lparr>shape = shape (h_view h), dtype = dtype (h_view h), data = xs\<rparr>)"

text \<open>A result of the library is a fresh storage with a contiguous view.\<close>

definition new_tensor :: "score tensor \<Rightarrow> world \<Rightarrow> handle \<times> world" where
  "new_tensor t w =
     (\<lparr>h_addr = next_addr w,
       h_view = \<lparr>shape = shape t, dtype = dtype t, data = [0..<length (data t)]\<rparr>\<rparr>,
      w\<lparr>cells := (cells w)(next_addr w := data t), next_addr := Suc (next_addr w)\<rparr>)"

text \<open>\<^verbatim>\<open>transpose\<close> returns a view: the same storage, the positions permuted.\<close>

definition st_transpose :: "int \<Rightarrow> int \<Rightarrow> handle \<Rightarrow> error + handle" where
  "st_transpose d0 d1 h =
     (case transpose_t d0 d1 (h_view h) of
        Inl e \<Rightarrow> Inl e
      | Inr view \<Rightarrow> Inr (h\<lparr>h_view := view\<rparr>))"

definition st_reshape :: "nat list \<Rightarrow> handle \<Rightarrow> world \<Rightarrow> (error + handle) \<times> world" where
  "st_reshape shp h w =
     (case reshape shp (h_view h) of
        Inl e \<Rightarrow> (Inl e, w)
      | Inr view \<Rightarrow>
          if reshape_as_view w (h_view h) shp then (Inr (h\<lparr>h_view := view\<rparr>), w)
          else (case new_tensor ((load w h)\<lparr>shape := shp\<rparr>) w of (h', w') \<Rightarrow> (Inr h', w')))"

text \<open>The primitives that compute allocate their result.\<close>

definition st_new :: "real tensor \<Rightarrow> world \<Rightarrow> (error + handle) \<times> world" where
  "st_new t w = (case new_tensor (finite_scores t) w of (h, w') \<Rightarrow> (Inr h, w'))"

definition st_matmul :: "handle \<Rightarrow> handle \<Rightarrow> world \<Rightarrow> (error + handle) \<times> world" where
  "st_matmul a b w =
     (case operand w a of
        Inl e \<Rightarrow> (Inl e, w)
      | Inr ta \<Rightarrow>
          (case operand w b of
             Inl e \<Rightarrow> (Inl e, w)
           | Inr tb \<Rightarrow>
               (case matmul ta tb of
                  Inl e \<Rightarrow> (Inl e, w)
                | Inr t \<Rightarrow> st_new t w)))"

definition st_mul_scalar :: "handle \<Rightarrow> real \<Rightarrow> world \<Rightarrow> (error + handle) \<times> world" where
  "st_mul_scalar h c w =
     (case operand w h of
        Inl e \<Rightarrow> (Inl e, w)
      | Inr t \<Rightarrow> st_new (mul_scalar t c) w)"

definition st_ones_like :: "handle \<Rightarrow> world \<Rightarrow> (error + handle) \<times> world" where
  "st_ones_like h w = st_new (ones_like (load w h)) w"

definition st_triu :: "int \<Rightarrow> handle \<Rightarrow> world \<Rightarrow> (error + handle) \<times> world" where
  "st_triu g h w =
     (case operand w h of
        Inl e \<Rightarrow> (Inl e, w)
      | Inr t \<Rightarrow>
          (case triu g t of
             Inl e \<Rightarrow> (Inl e, w)
           | Inr t' \<Rightarrow> st_new t' w))"

text \<open>A mask is stored as ones and zeros.\<close>

definition flags :: "bool tensor \<Rightarrow> real tensor" where
  "flags m = \<lparr>shape = shape m, dtype = dtype m, data = map (\<lambda>b. if b then 1 else 0) (data m)\<rparr>"

definition st_bool :: "handle \<Rightarrow> world \<Rightarrow> (error + handle) \<times> world" where
  "st_bool h w =
     (case operand w h of
        Inl e \<Rightarrow> (Inl e, w)
      | Inr t \<Rightarrow> st_new (flags (to_bool t)) w)"

text \<open>
  \<^verbatim>\<open>scores.masked_fill_(mask, float('-inf'))\<close> writes into the storage of \<open>scores\<close>, at the
  positions of its view where the mask is set.
\<close>

definition st_masked_fill_neg_inf :: "handle \<Rightarrow> handle \<Rightarrow> world \<Rightarrow> world" where
  "st_masked_fill_neg_inf h m w =
     w\<lparr>cells := (cells w)(h_addr h :=
         fold (\<lambda>(p, c) cs. if c = Fin 0 then cs else cs[p := NegInf])
           (zip (data (h_view h)) (data (load w m))) (cells w (h_addr h)))\<rparr>"

definition st_softmax :: "handle \<Rightarrow> world \<Rightarrow> (error + handle) \<times> world" where
  "st_softmax h w = st_new (softmax (load w h)) w"

text \<open>Sequencing: an exception ends the call, the state stays as it is then.\<close>

definition bind_st ::
  "(world \<Rightarrow> (error + 'a) \<times> world) \<Rightarrow> ('a \<Rightarrow> world \<Rightarrow> (error + 'b) \<times> world) \<Rightarrow>
   world \<Rightarrow> (error + 'b) \<times> world" where
  "bind_st f g w = (case f w of (Inl e, w') \<Rightarrow> (Inl e, w') | (Inr x, w') \<Rightarrow> g x w')"

definition lift_st :: "error + 'a \<Rightarrow> world \<Rightarrow> (error + 'a) \<times> world" where
  "lift_st r w = (r, w)"

text \<open>\<^verbatim>\<open>warnings.warn(msg, UserWarning)\<close>\<close>

definition warn :: "string \<Rightarrow> world \<Rightarrow> world" where
  "warn msg w = w\<lparr>warnings := warnings w @ [msg]\<rparr>"

text \<open>The lines of \<open>flash_attn_func\<close>, as in the value-level model above.\<close>

definition st_to_heads :: "nat \<Rightarrow> nat \<Rightarrow> nat \<Rightarrow> nat \<Rightarrow> handle \<Rightarrow> world \<Rightarrow> (error + handle) \<times> world" where
  "st_to_heads batch seqlen nheads headdim h =
     bind_st (lift_st (st_transpose 1 2 h)) (st_reshape [batch * nheads, seqlen, headdim])"

definition st_attn_scores :: "handle \<Rightarrow> handle \<Rightarrow> real \<Rightarrow> world \<Rightarrow> (error + handle) \<times> world" where
  "st_attn_scores q k c =
     bind_st (lift_st (st_transpose (- 2) (- 1) k)) (\<lambda>kt.
     bind_st (st_matmul q kt) (\<lambda>qk.
     st_mul_scalar qk c))"

definition st_causal_mask :: "handle \<Rightarrow> world \<Rightarrow> (error + handle) \<times> world" where
  "st_causal_mask scores =
     bind_st (st_ones_like scores) (\<lambda>ones.
     bind_st (st_triu 1 ones) (\<lambda>upper.
     st_bool upper))"

text \<open>\<open>flash_attn_func\<close> as a call in a process.\<close>

definition call_flash_attn_func ::
  "handle \<Rightarrow> handle \<Rightarrow> handle \<Rightarrow> real \<Rightarrow> real option \<Rightarrow> bool \<Rightarrow>
   int \<times> int \<Rightarrow> handle option \<Rightarrow> bool \<Rightarrow> world \<Rightarrow> (error + handle) \<times> world" where
  "call_flash_attn_func q k v dropout_p softmax_scale causal window_size alibi_slopes deterministic w =
     (bind_st (lift_st (unpack4 (shape (h_view q)))) (\<lambda>(batch, seqlen, nheads, headdim).
      bind_st (lift_st (effective_scale softmax_scale headdim)) (\<lambda>c.
      bind_st (st_to_heads batch seqlen nheads headdim q) (\<lambda>q'.
      bind_st (st_to_heads batch seqlen nheads headdim k) (\<lambda>k'.
      bind_st (st_to_heads batch seqlen nheads headdim v) (\<lambda>v'.
      bind_st (st_attn_scores q' k' c) (\<lambda>scores.
      bind_st (if causal
               then bind_st (st_causal_mask scores) (\<lambda>m w'. (Inr (), st_masked_fill_neg_inf scores m w'))
               else lift_st (Inr ())) (\<lambda>_.
      bind_st (st_softmax scores) (\<lambda>attn_weights.
      bind_st (st_matmul attn_weights v') (\<lambda>out.
      bind_st (st_reshape [batch, nheads, seqlen, headdim] out) (\<lambda>out'.
      lift_st (st_transpose 1 2 out'))))))))))))
       (warn ''Using CPU fallback for Flash Attention. Performance will be slower than CUDA implementation.'' w)"

definition call_flash_attn_varlen_func ::
  "handle \<Rightarrow> handle \<Rightarrow> handle \<Rightarrow> handle \<Rightarrow> handle \<Rightarrow> int \<Rightarrow> int \<Rightarrow> real \<Rightarrow> real option \<Rightarrow> bool \<Rightarrow>
   int \<times> int \<Rightarrow> handle option \<Rightarrow> bool \<Rightarrow> world \<Rightarrow> (error + handle) \<times> world" where
  "call_flash_attn_varlen_func q k v cu_seqlens_q cu_seqlens_k max_seqlen_q max_seqlen_k
       dropout_p softmax_scale causal window_size alibi_slopes deterministic w =
     call_flash_attn_func q k v dropout_p softmax_scale causal window_size alibi_slopes deterministic
       (warn ''Variable-length Flash Attention fallback not fully implemented. Using basic implementation.'' w)"

definition call_forward ::
  "FlashAttention \<Rightarrow> handle \<Rightarrow> handle \<Rightarrow> handle \<Rightarrow> bool \<Rightarrow> world \<Rightarrow> (error + handle) \<times> world" where
  "call_forward self q k v causal =
     call_flash_attn_func q k v (fa_dropout_p self) (fa_softmax_scale self) causal (- 1, - 1) None False"

text \<open>
  The last line of the module prints when the module body runs. The text begins with a
  warning sign, given here by the six bytes of its UTF-8 encoding, and two spaces.
\<close>

definition advisory :: string where
  "advisory =
     [CHR 0xE2, CHR 0x9A, CHR 0xA0, CHR 0xEF, CHR 0xB8, CHR 0x8F] @
     ''  Using Flash Attention CPU fallback. Install CUDA version for better performance.''"

definition module_body :: "world \<Rightarrow> world" where
  "module_body w = w\<lparr>stdout := stdout w @ [advisory]\<rparr>"

text \<open>
  \<^verbatim>\<open>import\<close> runs the body of a module that the module table does not hold yet, and only
  then. The module has no flag of its own that guards the print: whenever its body runs
  again, as \<^verbatim>\<open>importlib.reload\<close> makes it do for a module that is loaded, the print runs
  again.
\<close>

definition import_module :: "world \<Rightarrow> world" where
  "import_module w = (if module_loaded w then w else module_body (w\<lparr>module_loaded := True\<rparr>))"

definition reload_module :: "world \<Rightarrow> world" where
  "reload_module w = (if module_loaded w then module_body w else w)"

text \<open>
  What a process does with the module: import it, reload it, or call one of its entry
  points. An entry point exists, and the module can be reloaded, once the module is loaded.
\<close>

datatype event =
    Import
  | Reload
  | Call_flash_attn_func handle handle handle real "real option" bool "int \<times> int" "handle option" bool
  | Call_flash_attn_varlen_func handle handle handle handle handle int int real "real option" bool
      "int \<times> int" "handle option" bool
  | Call_forward FlashAttention handle handle handle bool

fun step :: "event \<Rightarrow> world \<Rightarrow> world" where
  "step Import w = import_module w"
| "step Reload w = reload_module w"
| "step (Call_flash_attn_func q k v dropout_p softmax_scale causal window_size alibi_slopes deterministic) w =
     (if module_loaded w
      then snd (call_flash_attn_func q k v dropout_p softmax_scale causal window_size alibi_slopes deterministic w)
      else w)"
| "step (Call_flash_attn_varlen_func q k v cu_seqlens_q cu_seqlens_k max_seqlen_q max_seqlen_k
       dropout_p softmax_scale causal window_size alibi_slopes deterministic) w =
     (if module_loaded w
      then snd (call_flash_attn_varlen_func q k v cu_seqlens_q cu_seqlens_k max_seqlen_q max_seqlen_k
                  dropout_p softmax_scale causal window_size alibi_slopes deterministic w)
      else w)"
| "step (Call_forward self q k v causal) w =
     (if module_loaded w then snd (call_forward self q k v causal w) else w)"

definition run :: "event list \<Rightarrow> world \<Rightarrow> world" where
  "run es w = fold step es w"

text \<open>
  How many times the module body runs in a sequence of events, from a process in which the
  module is loaded or not: at the first import, and at every reload of the loaded module.
\<close>

fun body_runs :: "bool \<Rightarrow> event list \<Rightarrow> nat" where
  "body_runs loaded [] = 0"
| "body_runs loaded (Import # es) = (if loaded then 0 else 1) + body_runs True es"
| "body_runs loaded (Reload # es) = (if loaded then 1 else 0) + body_runs loaded es"
| "body_runs loaded (_ # es) = body_runs loaded es"

text \<open>A process with two storages, for the examples.\<close>

definition example_world :: world where
  "example_world =
     \<lparr>cells = (\<lambda>_. [])(0 := [Fin 1, Fin 1], 1 := [Fin 10, Fin 20]), next_addr = 2,
      reshape_as_view = (\<lambda>_ _. False), module_loaded = True, stdout = [advisory], warnings = []\<rparr>"

definition example_handle :: "addr \<Rightarrow> handle" where
  "example_handle a = \<lparr>h_addr = a, h_view = \<lparr>shape = [1, 2, 1, 1], dtype = Float32, data = [0, 1]\<rparr>\<rparr>"

subsection \<open>Properties of operations on the state\<close>

text \<open>\<open>frame n w w'\<close>: from \<open>w\<close> to \<open>w'\<close> no storage below address \<open>n\<close> has changed and none was freed.\<close>

definition frame :: "addr \<Rightarrow> world \<Rightarrow> world \<Rightarrow> bool" where
  "frame n w w' \<longleftrightarrow> next_addr w \<le> next_addr w' \<and> (\<forall>a<n. cells w' a = cells w a)"

text \<open>An operation that leaves the storages below \<open>n\<close> alone, and one whose result lies at \<open>n\<close> or above.\<close>

definition frame_op :: "addr \<Rightarrow> (world \<Rightarrow> 'a \<times> world) \<Rightarrow> bool" where
  "frame_op n f \<longleftrightarrow> (\<forall>w. n \<le> next_addr w \<longrightarrow> frame n w (snd (f w)))"

definition fresh_op :: "addr \<Rightarrow> (world \<Rightarrow> (error + handle) \<times> world) \<Rightarrow> bool" where
  "fresh_op n f \<longleftrightarrow> (\<forall>w h. n \<le> next_addr w \<longrightarrow> fst (f w) = Inr h \<longrightarrow> n \<le> h_addr h)"

text \<open>An operation that prints nothing and leaves the module table alone.\<close>

definition quiet :: "(world \<Rightarrow> 'a \<times> world) \<Rightarrow> bool" where
  "quiet f \<longleftrightarrow> (\<forall>w. stdout (snd (f w)) = stdout w \<and> module_loaded (snd (f w)) = module_loaded w)"

text \<open>A process that has not loaded the module and has printed nothing.\<close>

definition fresh_process :: world where
  "fresh_process =
     \<lparr>cells = (\<lambda>_. []), next_addr = 0, reshape_as_view = (\<lambda>_ _. False), module_loaded = False,
      stdout = [], warnings = []\<rparr>"

text \<open>A function applied to every element.\<close>

definition map_tensor :: "('a \<Rightarrow> 'b) \<Rightarrow> 'a tensor \<Rightarrow> 'b tensor" where
  "map_tensor f t = \<lparr>shape = shape t, dtype = dtype t, data = map f (data t)\<rparr>"

text \<open>\<open>denotes w h T\<close>: in the state \<open>w\<close> the tensor object \<open>h\<close> is allocated, its view stays inside its
  storage, and it shows the real tensor \<open>T\<close>.\<close>

definition denotes :: "world \<Rightarrow> handle \<Rightarrow> real tensor \<Rightarrow> bool" where
  "denotes w h T \<longleftrightarrow>
     h_addr h < next_addr w \<and> load w h = finite_scores T \<and> well_formed T \<and>
     list_all (\<lambda>p. p < length (cells w (h_addr h))) (data (h_view h))"

text \<open>A property of the state that holds on while the storages allocated so far are left alone.\<close>

definition stable :: "(world \<Rightarrow> bool) \<Rightarrow> bool" where
  "stable J \<longleftrightarrow> (\<forall>w w'. J w \<longrightarrow> frame (next_addr w) w w' \<longrightarrow> J w')"

text \<open>\<open>refines I f p Q\<close>: from a state with \<open>I\<close>, the operation \<open>f\<close> raises what the value-level
  computation \<open>p\<close> raises, or returns a result that \<open>Q\<close> relates to the result of \<open>p\<close>.\<close>

definition refines ::
  "(world \<Rightarrow> bool) \<Rightarrow> (world \<Rightarrow> (error + 'x) \<times> world) \<Rightarrow> error + 'a \<Rightarrow>
   ('a \<Rightarrow> 'x \<Rightarrow> world \<Rightarrow> bool) \<Rightarrow> bool" where
  "refines I f p Q \<longleftrightarrow>
     (\<forall>w. I w \<longrightarrow>
        (case p of
           Inl e \<Rightarrow> fst (f w) = Inl e
         | Inr a \<Rightarrow> (\<exists>x. fst (f w) = Inr x \<and> Q a x (snd (f w)))))"

text \<open>The result of a computing primitive: a fresh contiguous tensor object that shows \<open>T\<close>, apart
  from the storage at \<open>x\<close>.\<close>

definition allocated :: "addr \<Rightarrow> (world \<Rightarrow> bool) \<Rightarrow> real tensor \<Rightarrow> handle \<Rightarrow> world \<Rightarrow> bool" where
  "allocated x J T h w \<longleftrightarrow>
     denotes w h T \<and> data (h_view h) = [0..<length (data T)] \<and> h_addr h \<noteq> x \<and>
     x < next_addr w \<and> J w"

text \<open>Two states with the same storages, and an operation whose result and storages depend on
  the storages alone, not on what was printed or warned.\<close>

definition same_store :: "world \<Rightarrow> world \<Rightarrow> bool" where
  "same_store w w' \<longleftrightarrow>
     cells w = cells w' \<and> next_addr w = next_addr w' \<and> reshape_as_view w = reshape_as_view w'"

definition store_only :: "(world \<Rightarrow> 'a \<times> world) \<Rightarrow> bool" where
  "store_only f \<longleftrightarrow>
     (\<forall>w w'. same_store w w' \<longrightarrow> fst (f w) = fst (f w') \<and> same_store (snd (f w)) (snd (f w')))"

section \<open>Closed forms of the intermediate tensors\<close>

text \<open>
  The functions of this section are not part of the module. They name the elements of the
  intermediate tensors so that the lemmas can state them; each one is proved equal to what
  the model computes.
\<close>

definition score_at :: "real tensor \<Rightarrow> real tensor \<Rightarrow> real \<Rightarrow> nat \<Rightarrow> nat list \<Rightarrow> real" where
  "score_at q k c d idx = (\<Sum>l\<leftarrow>[0..<d]. elem_at q [idx ! 0, idx ! 1, l] * elem_at k [idx ! 0, idx ! 2, l]) * c"

definition masked_at :: "bool \<Rightarrow> (nat list \<Rightarrow> real) \<Rightarrow> nat list \<Rightarrow> score" where
  "masked_at causal f idx =
     (if causal \<and> 1 \<le> int (last idx) - int (last (butlast idx)) then NegInf else Fin (f idx))"

definition heads :: "nat \<Rightarrow> nat \<Rightarrow> nat \<Rightarrow> nat \<Rightarrow> 'a tensor \<Rightarrow> 'a tensor" where
  "heads B S H D t = \<lparr>shape = [B * H, S, D], dtype = dtype t,
          data = map (\<lambda>idx. elem_at t (swap_at 1 2 idx)) (indices [B, H, S, D])\<rparr>"

definition scale_of :: "real option \<Rightarrow> nat \<Rightarrow> real" where
  "scale_of softmax_scale D = (case softmax_scale of Some c \<Rightarrow> c | None \<Rightarrow> real D powr (- (1 / 2)))"

definition weight_at :: "real tensor \<Rightarrow> real tensor \<Rightarrow> real \<Rightarrow> bool \<Rightarrow> nat \<Rightarrow> nat \<Rightarrow> nat list \<Rightarrow> real" where
  "weight_at q k c causal D T idx =
     exp_score (masked_at causal (score_at q k c D) idx) /
       (\<Sum>j\<leftarrow>[0..<T]. exp_score (masked_at causal (score_at q k c D) (butlast idx @ [j])))"

definition output_at :: "real tensor \<Rightarrow> real tensor \<Rightarrow> nat \<Rightarrow> nat list \<Rightarrow> real" where
  "output_at w v T idx = (\<Sum>j\<leftarrow>[0..<T]. elem_at w [idx ! 0, idx ! 1, j] * elem_at v [idx ! 0, j, idx ! 2])"

definition unmerge :: "nat \<Rightarrow> nat \<Rightarrow> nat \<Rightarrow> nat \<Rightarrow> real tensor \<Rightarrow> real tensor" where
  "unmerge B S H D t = tabulate [B, S, H, D] (dtype t)
      (\<lambda>idx. elem_at (t\<lparr>shape := [B, H, S, D]\<rparr>) (swap_at 1 2 idx))"

definition heads_of :: "nat \<Rightarrow> nat \<Rightarrow> nat \<Rightarrow> nat \<Rightarrow> 'a tensor \<Rightarrow> 'a tensor" where
  "heads_of B S H D t = \<lparr>shape = [B * H, S, D], dtype = dtype t,
          data = map (\<lambda>idx. elem_at t (swap_at 1 2 idx)) (indices (swap_at 1 2 (shape t)))\<rparr>"

text \<open>
  When \<open>flash_attn_func\<close> fails and with which error, read off the arguments, in the order
  in which the steps run; \<open>None\<close> when it returns.
\<close>

definition outcome :: "real tensor \<Rightarrow> real tensor \<Rightarrow> real tensor \<Rightarrow> real option \<Rightarrow> error option" where
  "outcome q k v softmax_scale =
     (case shape q of
        [B, S, H, D] \<Rightarrow>
          if softmax_scale = None \<and> D = 0 then Some ZeroDivisionError
          else if length (shape k) < 3 then Some IndexError_dim
          else if prod_list (shape k) \<noteq> prod_list (shape q) then Some RuntimeError_reshape
          else if length (shape v) < 3 then Some IndexError_dim
          else if prod_list (shape v) \<noteq> prod_list (shape q) then Some RuntimeError_reshape
          else if dtype k \<noteq> dtype q then Some RuntimeError_matmul_dtype
          else if dtype v \<noteq> dtype q then Some RuntimeError_matmul_dtype
          else None
      | _ \<Rightarrow> Some ValueError_unpack)"

text \<open>The errors that \<open>matmul\<close> raises; \<open>softmax\<close> raises none on the numeric classes modelled.\<close>

definition raised_by_matmul_or_softmax :: "error \<Rightarrow> bool" where
  "raised_by_matmul_or_softmax e \<longleftrightarrow> e = RuntimeError_matmul_shape \<or> e = RuntimeError_matmul_dtype"

section \<open>Indexing lemmas\<close>

lemma length_indices: "length (indices shp) = prod_list shp"
proof (induction shp)
  case Nil
  show ?case by simp
next
  case (Cons n ns)
  have "length (concat (map (\<lambda>i. map ((#) i) (indices ns)) [0..<n])) = n * prod_list ns"
    by (induction n) (simp_all add: Cons.IH)
  then show ?case by simp
qed

lemma nth_concat_rows:
  assumes "i < n" and "j < m" and "\<And>k. k < n \<Longrightarrow> length (g k) = m"
  shows "concat (map g [0..<n]) ! (i * m + j) = g i ! j"
  using assms
proof (induction n arbitrary: i)
  case 0
  then show ?case by simp
next
  case (Suc n)
  have len: "length (concat (map g [0..<n])) = n * m"
    using Suc.prems(3) by (induction n) simp_all
  show ?case
  proof (cases "i < n")
    case True
    have "i * m + j < n * m"
    proof -
      have "i * m + j < i * m + m" using Suc.prems(2) by simp
      also have "\<dots> = Suc i * m" by simp
      also have "\<dots> \<le> n * m" using True by (intro mult_le_mono1) simp
      finally show ?thesis .
    qed
    then show ?thesis using Suc True len by (simp add: nth_append)
  next
    case False
    then have "i = n" using Suc.prems(1) by simp
    then show ?thesis using Suc.prems len by (simp add: nth_append)
  qed
qed

lemma nth_indices:
  "valid_index shp idx \<Longrightarrow> indices shp ! flat_index shp idx = idx"
proof (induction shp arbitrary: idx)
  case Nil
  then show ?case by (simp add: valid_index_def flat_index_def)
next
  case (Cons n ns)
  then obtain i js where idx: "idx = i # js" and i: "i < n" and js: "valid_index ns js"
    by (auto simp: valid_index_def list_all2_Cons2)
  have lt: "flat_index ns js < prod_list ns"
    using js
  proof (induction ns arbitrary: js)
    case Nil
    then show ?case by (simp add: flat_index_def valid_index_def)
  next
    case (Cons m ms)
    then obtain j ks where ks: "js = j # ks" "j < m" "valid_index ms ks"
      by (auto simp: valid_index_def list_all2_Cons2)
    have "j * prod_list ms + flat_index ms ks < j * prod_list ms + prod_list ms"
      using Cons.IH[OF ks(3)] by simp
    also have "\<dots> = Suc j * prod_list ms" by simp
    also have "\<dots> \<le> m * prod_list ms" using ks(2) by (intro mult_le_mono1) simp
    finally show ?case using ks by (simp add: flat_index_def)
  qed
  have "concat (map (\<lambda>i. map ((#) i) (indices ns)) [0..<n]) ! (i * prod_list ns + flat_index ns js)
        = map ((#) i) (indices ns) ! flat_index ns js"
    by (rule nth_concat_rows) (use i lt in \<open>simp_all add: length_indices\<close>)
  also have "\<dots> = i # js"
    using lt Cons.IH[OF js] by (simp add: length_indices)
  finally show ?case by (simp add: idx flat_index_def)
qed

lemma valid_index_Nil [simp]: "valid_index [] idx \<longleftrightarrow> idx = []"
  by (auto simp: valid_index_def)

lemma valid_index_Cons [simp]:
  "valid_index (n # ns) (i # js) \<longleftrightarrow> i < n \<and> valid_index ns js"
  by (simp add: valid_index_def)

lemma valid_index_length: "valid_index shp idx \<Longrightarrow> length idx = length shp"
  by (simp add: valid_index_def list_all2_lengthD)

lemma valid_index_ConsE:
  assumes "valid_index (n # ns) idx"
  obtains i js where "idx = i # js" "i < n" "valid_index ns js"
  using assms by (auto simp: valid_index_def list_all2_Cons2)

lemma flat_index_Cons [simp]:
  "flat_index (n # ns) (i # js) = i * prod_list ns + flat_index ns js"
  by (simp add: flat_index_def)

lemma flat_index_Nil [simp]: "flat_index [] idx = 0"
  by (simp add: flat_index_def)

lemma flat_index_less: "valid_index shp idx \<Longrightarrow> flat_index shp idx < prod_list shp"
proof (induction shp arbitrary: idx)
  case Nil
  then show ?case by simp
next
  case (Cons n ns)
  from Cons.prems obtain i js where idx: "idx = i # js" "i < n" "valid_index ns js"
    by (rule valid_index_ConsE)
  have "i * prod_list ns + flat_index ns js < i * prod_list ns + prod_list ns"
    using Cons.IH[OF idx(3)] by simp
  also have "\<dots> = Suc i * prod_list ns" by simp
  also have "\<dots> \<le> n * prod_list ns" using idx(2) by (intro mult_le_mono1) simp
  finally show ?case by (simp add: idx)
qed

lemma set_indices: "set (indices shp) = {idx. valid_index shp idx}"
proof (induction shp)
  case Nil
  show ?case by auto
next
  case (Cons n ns)
  show ?case
  proof (intro set_eqI iffI)
    fix idx assume "idx \<in> set (indices (n # ns))"
    then show "idx \<in> {idx. valid_index (n # ns) idx}" using Cons.IH by auto
  next
    fix idx assume "idx \<in> {idx. valid_index (n # ns) idx}"
    then have "valid_index (n # ns) idx" by simp
    then obtain i js where "idx = i # js" "i < n" "valid_index ns js"
      by (rule valid_index_ConsE)
    then show "idx \<in> set (indices (n # ns))" using Cons.IH by auto
  qed
qed

lemma shape_tabulate [simp]: "shape (tabulate shp dt f) = shp"
  and dtype_tabulate [simp]: "dtype (tabulate shp dt f) = dt"
  and data_tabulate: "data (tabulate shp dt f) = map f (indices shp)"
  by (simp_all add: tabulate_def)

lemma wf_tabulate [simp]: "well_formed (tabulate shp dt f)"
  by (simp add: well_formed_def tabulate_def length_indices)

lemma elem_at_tabulate:
  "valid_index shp idx \<Longrightarrow> elem_at (tabulate shp dt f) idx = f idx"
  using flat_index_less[of shp idx] nth_indices[of shp idx]
  by (simp add: elem_at_def tabulate_def length_indices)

lemma tabulate_cong:
  "(\<And>idx. valid_index shp idx \<Longrightarrow> f idx = g idx) \<Longrightarrow> tabulate shp dt f = tabulate shp dt g"
  by (simp add: tabulate_def set_indices)

section \<open>The stages of the computation\<close>

lemma nth_map_indices:
  "valid_index shp idx \<Longrightarrow> map f (indices shp) ! flat_index shp idx = f idx"
  using flat_index_less[of shp idx] nth_indices[of shp idx] by (simp add: length_indices)

lemma mul_scalar_tabulate:
  "mul_scalar (tabulate shp dt f) c = tabulate shp dt (\<lambda>idx. f idx * c)"
  by (simp add: mul_scalar_def tabulate_def)

lemma ones_like_tabulate:
  "ones_like (tabulate shp dt f) = tabulate shp dt (\<lambda>idx. 1)"
  by (simp add: ones_like_def tabulate_def map_replicate_const)

lemma triu_tabulate:
  "2 \<le> length shp \<Longrightarrow> triu g (tabulate shp dt f) =
   Inr (tabulate shp dt (\<lambda>idx. if g \<le> int (last idx) - int (last (butlast idx)) then f idx else 0))"
  unfolding triu_def shape_tabulate dtype_tabulate
  by (simp, rule tabulate_cong) (simp add: elem_at_tabulate)

lemma to_bool_tabulate:
  "to_bool (tabulate shp dt f) = tabulate shp dt (\<lambda>idx. f idx \<noteq> 0)"
  by (simp add: to_bool_def tabulate_def)

lemma map2_same: "map2 g (map f xs) (map m xs) = map (\<lambda>x. g (f x) (m x)) xs"
  by (induction xs) simp_all

lemma masked_fill_neg_inf_tabulate:
  "masked_fill_neg_inf (tabulate shp dt f) (tabulate shp dt' m) =
   tabulate shp dt (\<lambda>idx. if m idx then NegInf else Fin (f idx))"
  by (simp add: masked_fill_neg_inf_def tabulate_def map2_same)

lemma finite_scores_tabulate:
  "finite_scores (tabulate shp dt f) = tabulate shp dt (\<lambda>idx. Fin (f idx))"
  by (simp add: finite_scores_def tabulate_def)

lemma causal_mask_tabulate:
  "2 \<le> length shp \<Longrightarrow> causal_mask (tabulate shp dt f) =
   Inr (tabulate shp dt (\<lambda>idx. 1 \<le> int (last idx) - int (last (butlast idx))))"
  unfolding causal_mask_def ones_like_tabulate
  by (simp add: triu_tabulate to_bool_tabulate)

lemma valid_index_replace_last:
  "valid_index shp idx \<Longrightarrow> shp \<noteq> [] \<Longrightarrow> j < last shp \<Longrightarrow> valid_index shp (butlast idx @ [j])"
proof (induction shp arbitrary: idx)
  case Nil
  then show ?case by simp
next
  case (Cons n ns)
  from Cons.prems(1) obtain i js where idx: "idx = i # js" "i < n" "valid_index ns js"
    by (rule valid_index_ConsE)
  show ?case
  proof (cases "ns = []")
    case True
    then show ?thesis using idx Cons.prems by simp
  next
    case False
    then have "js \<noteq> []" using idx(3) valid_index_length by fastforce
    then show ?thesis using idx Cons.prems Cons.IH[OF idx(3) False] False by simp
  qed
qed

lemma sum_list_upt_cong:
  "(\<And>j. j < n \<Longrightarrow> f j = g j) \<Longrightarrow> (\<Sum>j\<leftarrow>[0..<n]. f j) = (\<Sum>j\<leftarrow>[0..<n]. g j :: real)"
  by (rule arg_cong[where f = sum_list], rule map_cong) simp_all

lemma softmax_tabulate:
  assumes "shp \<noteq> []"
  shows "softmax (tabulate shp dt f) =
   tabulate shp dt (\<lambda>idx. exp_score (f idx) / (\<Sum>j\<leftarrow>[0..<last shp]. exp_score (f (butlast idx @ [j]))))"
  unfolding softmax_def shape_tabulate dtype_tabulate
proof (rule tabulate_cong)
  fix idx assume v: "valid_index shp idx"
  have "(\<Sum>j\<leftarrow>[0..<last shp]. exp_score (elem_at (tabulate shp dt f) (butlast idx @ [j])))
      = (\<Sum>j\<leftarrow>[0..<last shp]. exp_score (f (butlast idx @ [j])))"
    by (rule sum_list_upt_cong) (simp add: elem_at_tabulate valid_index_replace_last[OF v assms])
  then show "exp_score (elem_at (tabulate shp dt f) idx) /
       (\<Sum>j\<leftarrow>[0..<row_length shp]. exp_score (elem_at (tabulate shp dt f) (butlast idx @ [j]))) =
       exp_score (f idx) / (\<Sum>j\<leftarrow>[0..<last shp]. exp_score (f (butlast idx @ [j])))"
    using v assms by (simp add: elem_at_tabulate row_length_def)
qed

lemma transpose_t_4d:
  "shape t = [B, S, H, D] \<Longrightarrow>
   transpose_t 1 2 t = Inr (tabulate [B, H, S, D] (dtype t) (\<lambda>idx. elem_at t (swap_at 1 2 idx)))"
  by (simp add: transpose_t_def wrap_dim_def swap_at_def)

lemma transpose_t_3d:
  "shape t = [N, S, D] \<Longrightarrow>
   transpose_t (- 2) (- 1) t = Inr (tabulate [N, D, S] (dtype t) (\<lambda>idx. elem_at t (swap_at 1 2 idx)))"
  by (simp add: transpose_t_def wrap_dim_def swap_at_def)

lemma reshape_tabulate:
  "prod_list shp' = prod_list shp \<Longrightarrow>
   reshape shp' (tabulate shp dt f) = Inr \<lparr>shape = shp', dtype = dt, data = map f (indices shp)\<rparr>"
  by (simp add: reshape_def tabulate_def length_indices)

lemma to_heads_4d:
  "shape t = [B, S, H, D] \<Longrightarrow>
   to_heads B S H D t =
     Inr \<lparr>shape = [B * H, S, D], dtype = dtype t,
          data = map (\<lambda>idx. elem_at t (swap_at 1 2 idx)) (indices [B, H, S, D])\<rparr>"
  by (simp add: to_heads_def transpose_t_4d reshape_tabulate)

lemma merged_flat_index:
  "flat_index [B * H, S, D] [b * H + h, i, d] = flat_index [B, H, S, D] [b, h, i, d]"
  by (simp add: algebra_simps)

lemma to_heads_elem:
  assumes "shape t = [B, S, H, D]" and "to_heads B S H D t = Inr t'"
    and "b < B" "h < H" "i < S" "d < D"
  shows "elem_at t' [b * H + h, i, d] = elem_at t [b, i, h, d]"
proof -
  have t': "t' = \<lparr>shape = [B * H, S, D], dtype = dtype t,
          data = map (\<lambda>idx. elem_at t (swap_at 1 2 idx)) (indices [B, H, S, D])\<rparr>"
    using assms(1,2) by (simp add: to_heads_4d)
  have "elem_at t' [b * H + h, i, d] =
        map (\<lambda>idx. elem_at t (swap_at 1 2 idx)) (indices [B, H, S, D]) ! flat_index [B, H, S, D] [b, h, i, d]"
    unfolding elem_at_def t' by (simp only: tensor.simps merged_flat_index)
  also have "\<dots> = elem_at t (swap_at 1 2 [b, h, i, d])"
    by (rule nth_map_indices) (simp add: assms)
  finally show ?thesis by (simp add: swap_at_def)
qed

lemma valid_index_3:
  "valid_index [a, b, c] idx \<longleftrightarrow> (\<exists>x y z. idx = [x, y, z] \<and> x < a \<and> y < b \<and> z < c)"
proof
  assume "valid_index [a, b, c] idx"
  then obtain x r1 where 1: "idx = x # r1" "x < a" "valid_index [b, c] r1" by (rule valid_index_ConsE)
  from 1(3) obtain y r2 where 2: "r1 = y # r2" "y < b" "valid_index [c] r2" by (rule valid_index_ConsE)
  from 2(3) obtain z r3 where 3: "r2 = z # r3" "z < c" "valid_index [] r3" by (rule valid_index_ConsE)
  show "\<exists>x y z. idx = [x, y, z] \<and> x < a \<and> y < b \<and> z < c" using 1 2 3 by simp
next
  assume "\<exists>x y z. idx = [x, y, z] \<and> x < a \<and> y < b \<and> z < c"
  then show "valid_index [a, b, c] idx" by auto
qed

lemma tabulate_cong_3:
  "(\<And>x y z. x < a \<Longrightarrow> y < b \<Longrightarrow> z < c \<Longrightarrow> f [x, y, z] = g [x, y, z]) \<Longrightarrow>
   tabulate [a, b, c] dt f = tabulate [a, b, c] dt g"
  by (rule tabulate_cong) (auto simp: valid_index_3)

lemma matmul_3d:
  "shape a = [N, S, D] \<Longrightarrow> shape b = [N, D, T] \<Longrightarrow> dtype a = dtype b \<Longrightarrow>
   matmul a b = Inr (tabulate [N, S, T] (dtype a)
      (\<lambda>idx. \<Sum>l\<leftarrow>[0..<D]. elem_at a [idx ! 0, idx ! 1, l] * elem_at b [idx ! 0, l, idx ! 2]))"
  by (simp add: matmul_def)

lemma attn_scores_3d:
  assumes "shape q = [N, S, D]" "shape k = [N, T, D]" "dtype k = dtype q"
  shows "attn_scores q k c = Inr (tabulate [N, S, T] (dtype q) (score_at q k c D))"
proof -
  let ?kt = "tabulate [N, D, T] (dtype k) (\<lambda>idx. elem_at k (swap_at 1 2 idx))"
  have kt: "transpose_t (- 2) (- 1) k = Inr ?kt" using assms(2) by (rule transpose_t_3d)
  have mm: "matmul q ?kt = Inr (tabulate [N, S, T] (dtype q)
      (\<lambda>idx. \<Sum>l\<leftarrow>[0..<D]. elem_at q [idx ! 0, idx ! 1, l] * elem_at ?kt [idx ! 0, l, idx ! 2]))"
    by (rule matmul_3d) (simp_all add: assms)
  have "tabulate [N, S, T] (dtype q)
      (\<lambda>idx. (\<Sum>l\<leftarrow>[0..<D]. elem_at q [idx ! 0, idx ! 1, l] * elem_at ?kt [idx ! 0, l, idx ! 2]) * c)
      = tabulate [N, S, T] (dtype q) (score_at q k c D)"
  proof (rule tabulate_cong_3)
    fix x y z assume b: "x < N" "y < S" "z < T"
    have "(\<Sum>l\<leftarrow>[0..<D]. elem_at q [x, y, l] * elem_at ?kt [x, l, z])
        = (\<Sum>l\<leftarrow>[0..<D]. elem_at q [x, y, l] * elem_at k [x, z, l])"
      by (rule sum_list_upt_cong) (simp add: elem_at_tabulate b swap_at_def)
    then show "(\<Sum>l\<leftarrow>[0..<D]. elem_at q [[x, y, z] ! 0, [x, y, z] ! 1, l] *
                  elem_at ?kt [[x, y, z] ! 0, l, [x, y, z] ! 2]) * c = score_at q k c D [x, y, z]"
      by (simp add: score_at_def)
  qed
  then show ?thesis
    unfolding attn_scores_def kt mm sum.case mul_scalar_tabulate by (rule arg_cong)
qed

lemma attn_weights_3d:
  assumes "shape q = [N, S, D]" "shape k = [N, T, D]" "dtype k = dtype q"
  shows "attn_weights q k c causal =
    Inr (tabulate [N, S, T] (dtype q)
      (\<lambda>idx. exp_score (masked_at causal (score_at q k c D) idx) /
              (\<Sum>j\<leftarrow>[0..<T]. exp_score (masked_at causal (score_at q k c D) (butlast idx @ [j])))))"
proof (cases causal)
  case True
  have "masked_fill_neg_inf (tabulate [N, S, T] (dtype q) (score_at q k c D))
          (tabulate [N, S, T] (dtype q) (\<lambda>idx. 1 \<le> int (last idx) - int (last (butlast idx))))
        = tabulate [N, S, T] (dtype q) (masked_at True (score_at q k c D))"
    unfolding masked_fill_neg_inf_tabulate by (rule tabulate_cong) (simp add: masked_at_def)
  then show ?thesis
    using True by (simp add: attn_weights_def attn_scores_3d[OF assms] causal_mask_tabulate softmax_tabulate)
next
  case False
  have "finite_scores (tabulate [N, S, T] (dtype q) (score_at q k c D))
        = tabulate [N, S, T] (dtype q) (masked_at False (score_at q k c D))"
    unfolding finite_scores_tabulate by (rule tabulate_cong) (simp add: masked_at_def)
  then show ?thesis
    using False by (simp add: attn_weights_def attn_scores_3d[OF assms] softmax_tabulate)
qed

lemma to_heads_heads: "shape t = [B, S, H, D] \<Longrightarrow> to_heads B S H D t = Inr (heads B S H D t)"
  by (simp add: to_heads_4d heads_def)

lemma heads_simps [simp]:
  "shape (heads B S H D t) = [B * H, S, D]" "dtype (heads B S H D t) = dtype t"
  by (simp_all add: heads_def)

lemma heads_elem:
  assumes "shape t = [B, S, H, D]" "b < B" "h < H" "i < S" "d < D"
  shows "elem_at (heads B S H D t) [b * H + h, i, d] = elem_at t [b, i, h, d]"
  using to_heads_elem[OF assms(1) to_heads_heads[OF assms(1)] assms(2-5)] .

lemma effective_scale_ok:
  "softmax_scale = None \<longrightarrow> 0 < D \<Longrightarrow> effective_scale softmax_scale D = Inr (scale_of softmax_scale D)"
  by (auto simp: effective_scale_def scale_of_def split: option.splits)

lemma prepare_shared:
  assumes "shape q = [B, S, H, D]" "shape k = [B, S, H, D]" "shape v = [B, S, H, D]"
    and "softmax_scale = None \<longrightarrow> 0 < D"
  shows "prepare q k v softmax_scale =
     Inr ((B, S, H, D), scale_of softmax_scale D, heads B S H D q, heads B S H D k, heads B S H D v)"
  using assms by (simp add: prepare_def unpack4_def effective_scale_ok to_heads_heads)

lemma attn_weights_form:
  assumes "shape q = [N, S, D]" "shape k = [N, T, D]" "dtype k = dtype q"
  shows "attn_weights q k c causal = Inr (tabulate [N, S, T] (dtype q) (weight_at q k c causal D T))"
  using attn_weights_3d[OF assms] unfolding weight_at_def[abs_def] by simp

lemma masked_at_3 [simp]:
  "masked_at causal f [n, i, j] = (if causal \<and> i < j then NegInf else Fin (f [n, i, j]))"
  by (auto simp: masked_at_def)

lemma exp_score_nonneg [simp]: "0 \<le> exp_score x"
  by (cases x) simp_all

lemma sum_list_upt_pos:
  fixes f :: "nat \<Rightarrow> real"
  assumes "i < n" "0 < f i" "\<And>j. j < n \<Longrightarrow> 0 \<le> f j"
  shows "0 < (\<Sum>j\<leftarrow>[0..<n]. f j)"
proof -
  have "(\<Sum>j\<leftarrow>[0..<n]. f j) = sum f {0..<n}"
    by (simp add: interv_sum_list_conv_sum_set_nat)
  moreover have "0 < sum f {0..<n}"
    by (rule sum_pos2[where i = i]) (use assms in auto)
  ultimately show ?thesis by simp
qed

lemma sum_list_upt_divide:
  fixes f :: "nat \<Rightarrow> real"
  shows "(\<Sum>j\<leftarrow>[0..<n]. f j / z) = (\<Sum>j\<leftarrow>[0..<n]. f j) / z"
  by (simp add: interv_sum_list_conv_sum_set_nat sum_divide_distrib)

lemma normaliser_pos:
  assumes "i < S"
  shows "0 < (\<Sum>j\<leftarrow>[0..<S]. exp_score (masked_at causal f [n, i, j]))"
  by (rule sum_list_upt_pos[where i = i]) (use assms in simp_all)

lemma weight_at_3:
  "weight_at q k c causal D T [n, i, j] =
     exp_score (masked_at causal (score_at q k c D) [n, i, j]) /
       (\<Sum>j'\<leftarrow>[0..<T]. exp_score (masked_at causal (score_at q k c D) [n, i, j']))"
  by (simp add: weight_at_def)

lemma weight_row_sum:
  assumes "i < S"
  shows "(\<Sum>j\<leftarrow>[0..<S]. weight_at q k c causal D S [n, i, j]) = 1"
  unfolding weight_at_3 sum_list_upt_divide
  using normaliser_pos[OF assms, of causal "score_at q k c D" n] by simp

lemma weight_nonneg: "i < S \<Longrightarrow> 0 \<le> weight_at q k c causal D S [n, i, j]"
  unfolding weight_at_3
  using normaliser_pos[of i S causal "score_at q k c D" n] by (intro divide_nonneg_pos) simp_all

lemma weight_future_zero: "i < j \<Longrightarrow> weight_at q k c True D S [n, i, j] = 0"
  unfolding weight_at_3 by simp

lemma merged_index_less: "b < B \<Longrightarrow> h < H \<Longrightarrow> b * H + h < B * (H::nat)"
proof -
  assume b: "b < B" and h: "h < H"
  have "b * H + h < b * H + H" using h by simp
  also have "\<dots> = Suc b * H" by simp
  also have "\<dots> \<le> B * H" using b by (intro mult_le_mono1) simp
  finally show ?thesis .
qed

lemma matmul_form:
  "shape a = [N, S, T] \<Longrightarrow> shape b = [N, T, D] \<Longrightarrow> dtype a = dtype b \<Longrightarrow>
   matmul a b = Inr (tabulate [N, S, D] (dtype a) (output_at a b T))"
  unfolding output_at_def[abs_def] by (rule matmul_3d)

lemma unmerge_form:
  assumes "shape t = [B * H, S, D]" "well_formed t"
  shows "(case reshape [B, H, S, D] t of Inl e \<Rightarrow> Inl e | Inr t' \<Rightarrow> transpose_t 1 2 t')
         = Inr (unmerge B S H D t)"
proof -
  have "reshape [B, H, S, D] t = Inr (t\<lparr>shape := [B, H, S, D]\<rparr>)"
    using assms by (simp add: reshape_def well_formed_def mult.assoc)
  moreover have "transpose_t 1 2 (t\<lparr>shape := [B, H, S, D]\<rparr>) = Inr (unmerge B S H D t)"
    unfolding unmerge_def by (subst transpose_t_4d[where B = B and S = H and H = S and D = D]) simp_all
  ultimately show ?thesis by simp
qed

lemma unmerge_elem:
  assumes "b < B" "i < S" "h < H" "d < D"
  shows "elem_at (unmerge B S H D (tabulate [B * H, S, D] dt f)) [b, i, h, d] = f [b * H + h, i, d]"
proof -
  have "elem_at (unmerge B S H D (tabulate [B * H, S, D] dt f)) [b, i, h, d]
        = elem_at ((tabulate [B * H, S, D] dt f)\<lparr>shape := [B, H, S, D]\<rparr>) [b, h, i, d]"
    unfolding unmerge_def using assms by (simp add: elem_at_tabulate swap_at_def)
  also have "\<dots> = map f (indices [B * H, S, D]) ! flat_index [B * H, S, D] [b * H + h, i, d]"
    unfolding elem_at_def by (simp add: data_tabulate merged_flat_index[symmetric] del: flat_index_Cons)
  also have "\<dots> = f [b * H + h, i, d]"
    by (rule nth_map_indices) (simp add: assms merged_index_less)
  finally show ?thesis .
qed

lemma flash_attn_func_form:
  assumes "shape q = [B, S, H, D]" "shape k = [B, S, H, D]" "shape v = [B, S, H, D]"
    and "dtype k = dtype q" "dtype v = dtype q"
    and "softmax_scale = None \<longrightarrow> 0 < D"
  shows "flash_attn_func q k v dropout_p softmax_scale causal window_size alibi_slopes deterministic =
     Inr (unmerge B S H D
       (tabulate [B * H, S, D] (dtype q)
          (output_at
             (tabulate [B * H, S, S] (dtype q)
                (weight_at (heads B S H D q) (heads B S H D k) (scale_of softmax_scale D) causal D S))
             (heads B S H D v) S)))"
proof -
  let ?w = "tabulate [B * H, S, S] (dtype q)
                (weight_at (heads B S H D q) (heads B S H D k) (scale_of softmax_scale D) causal D S)"
  have w: "attn_weights (heads B S H D q) (heads B S H D k) (scale_of softmax_scale D) causal = Inr ?w"
    using attn_weights_form[of "heads B S H D q" "B * H" S D "heads B S H D k" S] assms(4) by simp
  have mm: "matmul ?w (heads B S H D v) = Inr (tabulate [B * H, S, D] (dtype q) (output_at ?w (heads B S H D v) S))"
    using matmul_form[of ?w "B * H" S S "heads B S H D v" D] assms(5) by simp
  show ?thesis
    unfolding flash_attn_func_def prepare_shared[OF assms(1,2,3,6)] sum.case prod.case w mm
    by (rule unmerge_form) simp_all
qed

lemma prod_list_swap_at:
  "a < length xs \<Longrightarrow> b < length xs \<Longrightarrow> prod_list (swap_at a b xs) = prod_list (xs :: nat list)"
proof -
  assume "a < length xs" "b < length xs"
  then have "mset (swap_at a b xs) = mset xs"
    by (simp add: swap_at_def mset_swap)
  then have "prod_mset (mset (swap_at a b xs)) = prod_mset (mset xs)" by simp
  then show ?thesis by (simp only: prod_mset_prod_list)
qed

lemma heads_of_simps [simp]:
  "shape (heads_of B S H D t) = [B * H, S, D]" "dtype (heads_of B S H D t) = dtype t"
  by (simp_all add: heads_of_def)

lemma to_heads_outcome:
  "to_heads B S H D t =
     (if length (shape t) < 3 then Inl IndexError_dim
      else if prod_list (shape t) = B * H * S * D then Inr (heads_of B S H D t)
      else Inl RuntimeError_reshape)"
proof (cases "length (shape t) < 3")
  case True
  then show ?thesis by (auto simp: to_heads_def transpose_t_def wrap_dim_def)
next
  case False
  then have tr: "transpose_t 1 2 t = Inr (tabulate (swap_at 1 2 (shape t)) (dtype t) (\<lambda>idx. elem_at t (swap_at 1 2 idx)))"
    by (simp add: transpose_t_def wrap_dim_def)
  have "prod_list (swap_at 1 2 (shape t)) = prod_list (shape t)"
    using False by (intro prod_list_swap_at) simp_all
  then show ?thesis
    using False unfolding to_heads_def tr sum.case
    by (auto simp: reshape_def tabulate_def length_indices heads_of_def mult_ac)
qed

lemma heads_of_heads: "shape t = [B, S, H, D] \<Longrightarrow> heads_of B S H D t = heads B S H D t"
  by (simp add: heads_of_def heads_def swap_at_def)

lemma attn_weights_dtype_error:
  assumes "shape q = [N, S, D]" "shape k = [N, T, D]" "dtype k \<noteq> dtype q"
  shows "attn_weights q k c causal = Inl RuntimeError_matmul_dtype"
  using assms by (simp add: attn_weights_def attn_scores_def transpose_t_3d matmul_def)

lemma prepare_outcome:
  assumes "shape q = [B, S, H, D]"
  shows "prepare q k v softmax_scale =
     (if softmax_scale = None \<and> D = 0 then Inl ZeroDivisionError
      else if length (shape k) < 3 then Inl IndexError_dim
      else if prod_list (shape k) \<noteq> prod_list (shape q) then Inl RuntimeError_reshape
      else if length (shape v) < 3 then Inl IndexError_dim
      else if prod_list (shape v) \<noteq> prod_list (shape q) then Inl RuntimeError_reshape
      else Inr ((B, S, H, D), scale_of softmax_scale D,
                heads_of B S H D q, heads_of B S H D k, heads_of B S H D v))"
  using assms
  by (auto simp: prepare_def unpack4_def to_heads_outcome effective_scale_def scale_of_def mult_ac
        split: option.splits)

lemma unpack4_error:
  "(\<nexists>B S H D. shp = [B, S, H, D]) \<Longrightarrow> unpack4 shp = Inl ValueError_unpack"
  by (auto simp: unpack4_def split: list.splits)

lemma outcome_not_4d:
  "(\<nexists>B S H D. shape q = [B, S, H, D]) \<Longrightarrow> outcome q k v softmax_scale = Some ValueError_unpack"
  by (auto simp: outcome_def split: list.splits)

lemma wf_unmerge [simp]: "well_formed (unmerge B S H D t)"
  by (simp add: unmerge_def)

lemma shape_unmerge [simp]: "shape (unmerge B S H D t) = [B, S, H, D]"
  and dtype_unmerge [simp]: "dtype (unmerge B S H D t) = dtype t"
  by (simp_all add: unmerge_def)

lemma flash_attn_func_outcome:
  "(case outcome q k v softmax_scale of
      Some e \<Rightarrow> flash_attn_func q k v dropout_p softmax_scale causal window_size alibi_slopes deterministic = Inl e
    | None \<Rightarrow> \<exists>out. flash_attn_func q k v dropout_p softmax_scale causal window_size alibi_slopes deterministic = Inr out
          \<and> shape out = shape q \<and> dtype out = dtype q \<and> well_formed out)"
proof (cases "\<exists>B S H D. shape q = [B, S, H, D]")
  case False
  then show ?thesis
    by (simp add: outcome_not_4d unpack4_error flash_attn_func_def prepare_def)
next
  case True
  then obtain B S H D where shp: "shape q = [B, S, H, D]" by blast
  note prep = prepare_outcome[OF shp, of k v softmax_scale]
  show ?thesis
  proof (cases "outcome q k v softmax_scale")
    case (Some e)
    have "prepare q k v softmax_scale = Inl e
      \<or> (prepare q k v softmax_scale = Inr ((B, S, H, D), scale_of softmax_scale D,
                heads_of B S H D q, heads_of B S H D k, heads_of B S H D v)
          \<and> e = RuntimeError_matmul_dtype \<and> (dtype k \<noteq> dtype q \<or> dtype k = dtype q \<and> dtype v \<noteq> dtype q))"
      using Some unfolding prep by (auto simp: outcome_def shp split: if_splits)
    then show ?thesis
    proof
      assume "prepare q k v softmax_scale = Inl e"
      then show ?thesis by (simp add: Some flash_attn_func_def)
    next
      assume a: "prepare q k v softmax_scale = Inr ((B, S, H, D), scale_of softmax_scale D,
                heads_of B S H D q, heads_of B S H D k, heads_of B S H D v)
          \<and> e = RuntimeError_matmul_dtype \<and> (dtype k \<noteq> dtype q \<or> dtype k = dtype q \<and> dtype v \<noteq> dtype q)"
      show ?thesis
      proof (cases "dtype k = dtype q")
        case False
        have "attn_weights (heads_of B S H D q) (heads_of B S H D k) (scale_of softmax_scale D) causal
              = Inl RuntimeError_matmul_dtype"
          by (rule attn_weights_dtype_error[where N = "B * H" and S = S and T = S and D = D])
             (simp_all add: False)
        then show ?thesis using a by (simp add: Some flash_attn_func_def)
      next
        case True
        have w: "attn_weights (heads_of B S H D q) (heads_of B S H D k) (scale_of softmax_scale D) causal
              = Inr (tabulate [B * H, S, S] (dtype q)
                  (weight_at (heads_of B S H D q) (heads_of B S H D k) (scale_of softmax_scale D) causal D S))"
          using attn_weights_form[of "heads_of B S H D q" "B * H" S D "heads_of B S H D k" S] True by simp
        have "matmul (tabulate [B * H, S, S] (dtype q)
                  (weight_at (heads_of B S H D q) (heads_of B S H D k) (scale_of softmax_scale D) causal D S))
                (heads_of B S H D v) = Inl RuntimeError_matmul_dtype"
          using a True by (auto simp: matmul_def)
        then show ?thesis using a by (simp add: Some flash_attn_func_def w)
      qed
    qed
  next
    case None
    then have c: "softmax_scale = None \<longrightarrow> 0 < D" "dtype k = dtype q" "dtype v = dtype q"
      and prep': "prepare q k v softmax_scale = Inr ((B, S, H, D), scale_of softmax_scale D,
                heads_of B S H D q, heads_of B S H D k, heads_of B S H D v)"
      unfolding prep by (auto simp: outcome_def shp split: if_splits)
    let ?w = "tabulate [B * H, S, S] (dtype q)
                  (weight_at (heads_of B S H D q) (heads_of B S H D k) (scale_of softmax_scale D) causal D S)"
    have w: "attn_weights (heads_of B S H D q) (heads_of B S H D k) (scale_of softmax_scale D) causal = Inr ?w"
      using attn_weights_form[of "heads_of B S H D q" "B * H" S D "heads_of B S H D k" S] c(2) by simp
    have mm: "matmul ?w (heads_of B S H D v) = Inr (tabulate [B * H, S, D] (dtype q) (output_at ?w (heads_of B S H D v) S))"
      using matmul_form[of ?w "B * H" S S "heads_of B S H D v" D] c(3) by simp
    have "flash_attn_func q k v dropout_p softmax_scale causal window_size alibi_slopes deterministic
          = Inr (unmerge B S H D (tabulate [B * H, S, D] (dtype q) (output_at ?w (heads_of B S H D v) S)))"
      unfolding flash_attn_func_def prep' sum.case prod.case w mm
      by (rule unmerge_form) simp_all
    then show ?thesis by (simp add: None shp)
  qed
qed

section \<open>The concrete scenario\<close>

lemma upt_2: "[0..<2] = [0, 1]"
  by (simp add: upt_rec)

lemmas primitive_defs =
  prepare_def unpack4_def effective_scale_def to_heads_def transpose_t_def wrap_dim_def reshape_def
  tabulate_def swap_at_def elem_at_def flat_index_def attn_weights_def attn_scores_def
  matmul_def mul_scalar_def softmax_def finite_scores_def masked_fill_neg_inf_def
  causal_mask_def to_bool_def triu_def ones_like_def row_length_def

text \<open>
  C2: for batch 1, sequence length 2, one head of dimension 1, query and key both
  \<open>[[1],[1]]\<close>, value \<open>[[10],[20]]\<close> and the default scale, \<open>flash_attn_func\<close> returns
  \<open>[[15],[15]]\<close> without the causal mask, and \<open>[10]\<close> at position 0 and \<open>[15]\<close> at position 1
  with it.
\<close>

theorem flash_attn_func_scenario:
  "flash_attn_func
     \<lparr>shape = [1, 2, 1, 1], dtype = dt, data = [1, 1]\<rparr>
     \<lparr>shape = [1, 2, 1, 1], dtype = dt, data = [1, 1]\<rparr>
     \<lparr>shape = [1, 2, 1, 1], dtype = dt, data = [10, 20]\<rparr>
     0 None False (- 1, - 1) None False
   = Inr \<lparr>shape = [1, 2, 1, 1], dtype = dt, data = [15, 15]\<rparr>
   \<and>
   flash_attn_func
     \<lparr>shape = [1, 2, 1, 1], dtype = dt, data = [1, 1]\<rparr>
     \<lparr>shape = [1, 2, 1, 1], dtype = dt, data = [1, 1]\<rparr>
     \<lparr>shape = [1, 2, 1, 1], dtype = dt, data = [10, 20]\<rparr>
     0 None True (- 1, - 1) None False
   = Inr \<lparr>shape = [1, 2, 1, 1], dtype = dt, data = [10, 15]\<rparr>"
  by (simp add: flash_attn_func_def primitive_defs upt_2)

section \<open>Attention weights\<close>

lemma output_at_3:
  "output_at w v T [n, i, d] = (\<Sum>j\<leftarrow>[0..<T]. elem_at w [n, i, j] * elem_at v [n, j, d])"
  by (simp add: output_at_def)

lemma sum_list_upt_split:
  fixes f :: "nat \<Rightarrow> real"
  assumes "m \<le> n" "\<And>j. m \<le> j \<Longrightarrow> j < n \<Longrightarrow> f j = 0"
  shows "(\<Sum>j\<leftarrow>[0..<n]. f j) = (\<Sum>j\<leftarrow>[0..<m]. f j)"
proof -
  obtain r where n: "n = m + r" using assms(1) le_Suc_ex by blast
  have "[0..<m + r] = [0..<m] @ [m..<m + r]" by (rule upt_add_eq_append) simp
  then have "[0..<n] = [0..<m] @ [m..<n]" by (simp add: n)
  moreover have "(\<Sum>j\<leftarrow>[m..<n]. f j) = 0"
    using assms(2) by (simp add: interv_sum_list_conv_sum_set_nat)
  ultimately show ?thesis by simp
qed

lemma shared_weights_and_output:
  assumes "shape q = [B, S, H, D]" "shape k = [B, S, H, D]" "shape v = [B, S, H, D]"
    and "dtype k = dtype q" "dtype v = dtype q"
    and "softmax_scale = None \<longrightarrow> 0 < D"
  shows "\<exists>c q' k' v' w out.
      prepare q k v softmax_scale = Inr ((B, S, H, D), c, q', k', v') \<and>
      attn_weights q' k' c causal = Inr w \<and>
      flash_attn_func q k v dropout_p softmax_scale causal window_size alibi_slopes deterministic = Inr out \<and>
      shape w = [B * H, S, S] \<and>
      (\<forall>b<B. \<forall>h<H. \<forall>i<S.
         (\<Sum>j\<leftarrow>[0..<S]. elem_at w [b * H + h, i, j]) = 1 \<and>
         (\<forall>j<S. 0 \<le> elem_at w [b * H + h, i, j]) \<and>
         (causal \<longrightarrow> (\<forall>j<S. i < j \<longrightarrow> elem_at w [b * H + h, i, j] = 0)) \<and>
         (\<forall>d<D. elem_at out [b, i, h, d] =
            (\<Sum>j\<leftarrow>[0..<if causal then Suc i else S]. elem_at w [b * H + h, i, j] * elem_at v [b, j, h, d])))"
proof -
  let ?c = "scale_of softmax_scale D"
  let ?q = "heads B S H D q" and ?k = "heads B S H D k" and ?v = "heads B S H D v"
  let ?W = "weight_at ?q ?k ?c causal D S"
  let ?w = "tabulate [B * H, S, S] (dtype q) ?W"
  let ?out = "unmerge B S H D (tabulate [B * H, S, D] (dtype q) (output_at ?w ?v S))"
  have prep: "prepare q k v softmax_scale = Inr ((B, S, H, D), ?c, ?q, ?k, ?v)"
    by (rule prepare_shared[OF assms(1,2,3,6)])
  have w: "attn_weights ?q ?k ?c causal = Inr ?w"
    using attn_weights_form[of ?q "B * H" S D ?k S] assms(4) by simp
  have fl: "flash_attn_func q k v dropout_p softmax_scale causal window_size alibi_slopes deterministic = Inr ?out"
    by (rule flash_attn_func_form[OF assms])
  have el: "elem_at ?w [b * H + h, i, j] = ?W [b * H + h, i, j]" if "b < B" "h < H" "i < S" "j < S" for b h i j
    using that by (simp add: elem_at_tabulate merged_index_less)
  have rows: "(\<Sum>j\<leftarrow>[0..<S]. elem_at ?w [b * H + h, i, j]) = 1" if "b < B" "h < H" "i < S" for b h i
  proof -
    have "(\<Sum>j\<leftarrow>[0..<S]. elem_at ?w [b * H + h, i, j]) = (\<Sum>j\<leftarrow>[0..<S]. ?W [b * H + h, i, j])"
      by (rule sum_list_upt_cong) (simp add: el that)
    then show ?thesis by (simp add: weight_row_sum that)
  qed
  have nonneg: "0 \<le> elem_at ?w [b * H + h, i, j]" if "b < B" "h < H" "i < S" "j < S" for b h i j
    using that by (simp add: el weight_nonneg)
  have future: "elem_at ?w [b * H + h, i, j] = 0" if "b < B" "h < H" "i < S" "j < S" "i < j" "causal" for b h i j
    using that by (simp add: elem_at_tabulate merged_index_less weight_future_zero)
  have outp: "elem_at ?out [b, i, h, d] =
      (\<Sum>j\<leftarrow>[0..<if causal then Suc i else S]. elem_at ?w [b * H + h, i, j] * elem_at v [b, j, h, d])"
    if "b < B" "h < H" "i < S" "d < D" for b h i d
  proof -
    have "elem_at ?out [b, i, h, d] = output_at ?w ?v S [b * H + h, i, d]"
      by (rule unmerge_elem) (use that in simp_all)
    also have "\<dots> = (\<Sum>j\<leftarrow>[0..<S]. elem_at ?w [b * H + h, i, j] * elem_at ?v [b * H + h, j, d])"
      by (simp add: output_at_3)
    also have "\<dots> = (\<Sum>j\<leftarrow>[0..<S]. elem_at ?w [b * H + h, i, j] * elem_at v [b, j, h, d])"
      by (rule sum_list_upt_cong) (simp add: heads_elem[OF assms(3)] that)
    also have "\<dots> = (\<Sum>j\<leftarrow>[0..<if causal then Suc i else S]. elem_at ?w [b * H + h, i, j] * elem_at v [b, j, h, d])"
    proof (cases causal)
      case True
      have "(\<Sum>j\<leftarrow>[0..<S]. elem_at ?w [b * H + h, i, j] * elem_at v [b, j, h, d])
          = (\<Sum>j\<leftarrow>[0..<Suc i]. elem_at ?w [b * H + h, i, j] * elem_at v [b, j, h, d])"
      proof (rule sum_list_upt_split)
        show "Suc i \<le> S" using that by simp
      next
        fix j assume j: "Suc i \<le> j" "j < S"
        have "elem_at ?w [b * H + h, i, j] = 0"
          by (rule future) (use that True j in simp_all)
        then show "elem_at ?w [b * H + h, i, j] * elem_at v [b, j, h, d] = 0" by simp
      qed
      then show ?thesis using True by simp
    next
      case False
      then show ?thesis by simp
    qed
    finally show ?thesis .
  qed
  show ?thesis
    apply (intro exI conjI)
        apply (rule prep)
       apply (rule w)
      apply (rule fl)
     apply simp
    apply (intro allI impI conjI)
       apply (rule rows; assumption)
      apply (rule nonneg; assumption)
     apply (rule future; assumption)
    apply (rule outp; assumption)
    done
qed

lemma returns_conditions:
  assumes "shape q = [B, S, H, D]" "shape k = [B, S, H, D]" "shape v = [B, S, H, D]"
    and "flash_attn_func q k v dropout_p softmax_scale causal window_size alibi_slopes deterministic = Inr out"
  shows "dtype k = dtype q \<and> dtype v = dtype q \<and> (softmax_scale = None \<longrightarrow> 0 < D)"
proof (cases "outcome q k v softmax_scale")
  case None
  then show ?thesis using assms(1,2,3) by (auto simp: outcome_def split: if_splits)
next
  case (Some e)
  then show ?thesis
    using flash_attn_func_outcome[where q = q and k = k and v = v and softmax_scale = softmax_scale
        and dropout_p = dropout_p and causal = causal and window_size = window_size
        and alibi_slopes = alibi_slopes and deterministic = deterministic] assms(4)
    by simp
qed

lemma example_causal:
  "flash_attn_func
     \<lparr>shape = [1, 2, 1, 1], dtype = dt, data = [1, 1]\<rparr>
     \<lparr>shape = [1, 2, 1, 1], dtype = dt, data = [1, 1]\<rparr>
     \<lparr>shape = [1, 2, 1, 1], dtype = dt, data = [10, 20]\<rparr>
     0 None True (- 1, - 1) None False
   = Inr \<lparr>shape = [1, 2, 1, 1], dtype = dt, data = [10, 15]\<rparr>"
  by (simp add: flash_attn_func_def primitive_defs upt_2)



section \<open>The scale\<close>

lemma score_at_heads:
  assumes "shape q = [B, S, H, D]" "shape k = [B, S, H, D]" "b < B" "h < H" "i < S" "j < S"
  shows "score_at (heads B S H D q) (heads B S H D k) c D [b * H + h, i, j]
       = (\<Sum>d\<leftarrow>[0..<D]. elem_at q [b, i, h, d] * elem_at k [b, j, h, d]) * c"
proof -
  have "(\<Sum>d\<leftarrow>[0..<D]. elem_at (heads B S H D q) [b * H + h, i, d] * elem_at (heads B S H D k) [b * H + h, j, d])
      = (\<Sum>d\<leftarrow>[0..<D]. elem_at q [b, i, h, d] * elem_at k [b, j, h, d])"
    by (rule sum_list_upt_cong) (simp add: heads_elem[OF assms(1)] heads_elem[OF assms(2)] assms)
  then show ?thesis by (simp add: score_at_def)
qed

lemma prepare_returns:
  assumes "prepare q k v softmax_scale = Inr ((B, S, H, D), c, q', k', v')"
  shows "shape q = [B, S, H, D]" "c = scale_of softmax_scale D"
    "q' = heads_of B S H D q" "k' = heads_of B S H D k" "v' = heads_of B S H D v"
    "softmax_scale = None \<longrightarrow> 0 < D"
proof -
  obtain dims where u: "unpack4 (shape q) = Inr dims"
    using assms by (cases "unpack4 (shape q)") (simp_all add: prepare_def)
  obtain B' S' H' D' where shp: "shape q = [B', S', H', D']" and dims: "dims = (B', S', H', D')"
    using u by (auto simp: unpack4_def split: list.splits)
  note p = prepare_outcome[OF shp, of k v softmax_scale]
  have eq: "Inr ((B', S', H', D'), scale_of softmax_scale D', heads_of B' S' H' D' q,
                 heads_of B' S' H' D' k, heads_of B' S' H' D' v)
            = (Inr ((B, S, H, D), c, q', k', v') :: error + _)
          \<and> (softmax_scale = None \<longrightarrow> 0 < D')"
    using assms unfolding p by (auto split: if_splits)
  then show "shape q = [B, S, H, D]" "c = scale_of softmax_scale D"
    "q' = heads_of B S H D q" "k' = heads_of B S H D k" "v' = heads_of B S H D v"
    "softmax_scale = None \<longrightarrow> 0 < D"
    using shp by auto
qed

lemma scores_of_prepared:
  assumes "prepare q k v softmax_scale = Inr ((B, S, H, D), c, q', k', v')" "dtype k = dtype q"
  shows "D = last (shape q)"
    and "c = (case softmax_scale of None \<Rightarrow> real D powr (- (1 / 2)) | Some x \<Rightarrow> x)"
    and "\<exists>scores. attn_scores q' k' c = Inr scores \<and> shape scores = [B * H, S, S] \<and>
           (\<forall>n<B * H. \<forall>i<S. \<forall>j<S.
              elem_at scores [n, i, j] = (\<Sum>d\<leftarrow>[0..<D]. elem_at q' [n, i, d] * elem_at k' [n, j, d]) * c)"
proof -
  note r = prepare_returns[OF assms(1)]
  show "D = last (shape q)" using r(1) by simp
  show "c = (case softmax_scale of None \<Rightarrow> real D powr (- (1 / 2)) | Some x \<Rightarrow> x)"
    using r(2) by (simp add: scale_of_def split: option.splits)
  have sc: "attn_scores q' k' c = Inr (tabulate [B * H, S, S] (dtype q') (score_at q' k' c D))"
    by (rule attn_scores_3d) (simp_all add: r(3,4) assms(2))
  have "elem_at (tabulate [B * H, S, S] (dtype q') (score_at q' k' c D)) [n, i, j]
        = (\<Sum>d\<leftarrow>[0..<D]. elem_at q' [n, i, d] * elem_at k' [n, j, d]) * c"
    if "n < B * H" "i < S" "j < S" for n i j
    using that by (simp add: elem_at_tabulate score_at_def)
  then show "\<exists>scores. attn_scores q' k' c = Inr scores \<and> shape scores = [B * H, S, S] \<and>
           (\<forall>n<B * H. \<forall>i<S. \<forall>j<S.
              elem_at scores [n, i, j] = (\<Sum>d\<leftarrow>[0..<D]. elem_at q' [n, i, d] * elem_at k' [n, j, d]) * c)"
    unfolding sc by simp
qed

lemma scores_of_shared:
  assumes "shape q = [B, S, H, D]" "shape k = [B, S, H, D]" "shape v = [B, S, H, D]"
    and "dtype k = dtype q"
    and "softmax_scale = None \<longrightarrow> 0 < D"
  shows "\<exists>c q' k' v' scores.
      prepare q k v softmax_scale = Inr ((B, S, H, last (shape q)), c, q', k', v') \<and>
      c = (case softmax_scale of None \<Rightarrow> real (last (shape q)) powr (- (1 / 2)) | Some x \<Rightarrow> x) \<and>
      attn_scores q' k' c = Inr scores \<and>
      shape scores = [B * H, S, S] \<and>
      (\<forall>b<B. \<forall>h<H. \<forall>i<S. \<forall>j<S.
         elem_at scores [b * H + h, i, j]
           = (\<Sum>d\<leftarrow>[0..<last (shape q)]. elem_at q [b, i, h, d] * elem_at k [b, j, h, d]) * c)"
proof -
  let ?c = "scale_of softmax_scale D"
  let ?q = "heads B S H D q" and ?k = "heads B S H D k" and ?v = "heads B S H D v"
  let ?s = "tabulate [B * H, S, S] (dtype q) (score_at ?q ?k ?c D)"
  have D: "last (shape q) = D" by (simp add: assms(1))
  have prep: "prepare q k v softmax_scale = Inr ((B, S, H, D), ?c, ?q, ?k, ?v)"
    by (rule prepare_shared[OF assms(1,2,3,5)])
  have sc: "attn_scores ?q ?k ?c = Inr ?s"
    using attn_scores_3d[of ?q "B * H" S D ?k S] assms(4) by simp
  have el: "elem_at ?s [b * H + h, i, j]
           = (\<Sum>d\<leftarrow>[0..<D]. elem_at q [b, i, h, d] * elem_at k [b, j, h, d]) * ?c"
    if "b < B" "h < H" "i < S" "j < S" for b h i j
    using that by (simp add: elem_at_tabulate merged_index_less score_at_heads[OF assms(1,2)])
  show ?thesis
    unfolding D
    apply (intro exI conjI)
        apply (rule prep)
       apply (simp add: scale_of_def)
      apply (rule sc)
     apply simp
    apply (intro allI impI)
    apply (rule el; assumption)
    done
qed



section \<open>Shape, numeric class and errors\<close>






section \<open>Calls in a process\<close>

lemmas st_defs = call_flash_attn_func_def bind_st_def lift_st_def warn_def st_to_heads_def
  st_attn_scores_def st_causal_mask_def st_softmax_def st_transpose_def st_reshape_def st_new_def
  new_tensor_def st_matmul_def st_mul_scalar_def st_ones_like_def st_triu_def st_bool_def
  st_masked_fill_neg_inf_def operand_def load_def flags_def example_world_def example_handle_def

lemma frame_refl [simp]: "frame n w w"
  by (simp add: frame_def)

lemma frame_trans: "frame n w w' \<Longrightarrow> frame n w' w'' \<Longrightarrow> frame n w w''"
  by (auto simp: frame_def)

lemma frame_op_lift [simp]: "frame_op n (lift_st r)"
  by (simp add: frame_op_def lift_st_def)

lemma frame_op_bind:
  assumes "frame_op n f" "\<And>x. frame_op n (g x)"
  shows "frame_op n (bind_st f g)"
  unfolding frame_op_def
proof (intro allI impI)
  fix w :: world assume n: "n \<le> next_addr w"
  obtain r w' where f: "f w = (r, w')" by (cases "f w")
  have 1: "frame n w w'" using assms(1) n f by (auto simp: frame_op_def)
  then have n': "n \<le> next_addr w'" using n by (simp add: frame_def)
  show "frame n w (snd (bind_st f g w))"
  proof (cases r)
    case (Inl e)
    then show ?thesis using f 1 by (simp add: bind_st_def)
  next
    case (Inr x)
    have "frame n w' (snd (g x w'))" using assms(2) n' by (simp add: frame_op_def)
    then show ?thesis using f Inr 1 by (auto simp: bind_st_def intro: frame_trans)
  qed
qed

lemma frame_op_bind_fresh:
  assumes "frame_op n f" "fresh_op n f" "\<And>x. n \<le> h_addr x \<Longrightarrow> frame_op n (g x)"
  shows "frame_op n (bind_st f g)"
  unfolding frame_op_def
proof (intro allI impI)
  fix w :: world assume n: "n \<le> next_addr w"
  obtain r w' where f: "f w = (r, w')" by (cases "f w")
  have 1: "frame n w w'" using assms(1) n f by (auto simp: frame_op_def)
  then have n': "n \<le> next_addr w'" using n by (simp add: frame_def)
  show "frame n w (snd (bind_st f g w))"
  proof (cases r)
    case (Inl e)
    then show ?thesis using f 1 by (simp add: bind_st_def)
  next
    case (Inr x)
    have "n \<le> h_addr x" using assms(2) n f Inr by (auto simp: fresh_op_def)
    then have "frame n w' (snd (g x w'))" using assms(3) n' by (simp add: frame_op_def)
    then show ?thesis using f Inr 1 by (auto simp: bind_st_def intro: frame_trans)
  qed
qed

lemma fresh_op_bind:
  assumes "frame_op n f" "\<And>x. fresh_op n (g x)"
  shows "fresh_op n (bind_st f g)"
  unfolding fresh_op_def
proof (intro allI impI)
  fix w :: world and h assume n: "n \<le> next_addr w" and r: "fst (bind_st f g w) = Inr h"
  obtain r' w' where f: "f w = (r', w')" by (cases "f w")
  have "frame n w w'" using assms(1) n f by (auto simp: frame_op_def)
  then have n': "n \<le> next_addr w'" using n by (simp add: frame_def)
  show "n \<le> h_addr h"
  proof (cases r')
    case (Inl e)
    then show ?thesis using f r by (simp add: bind_st_def)
  next
    case (Inr x)
    then have "fst (g x w') = Inr h" using f r by (simp add: bind_st_def)
    then show ?thesis using assms(2) n' by (auto simp: fresh_op_def)
  qed
qed

lemma frame_new_tensor: "n \<le> next_addr w \<Longrightarrow> frame n w (snd (new_tensor t w))"
  by (simp add: new_tensor_def frame_def)

lemma frame_op_st_new [simp]: "frame_op n (st_new t)"
  by (simp add: frame_op_def st_new_def new_tensor_def frame_def)

lemma fresh_op_st_new [simp]: "fresh_op n (st_new t)"
  by (auto simp: fresh_op_def st_new_def new_tensor_def)

lemma frame_op_st_matmul [simp]: "frame_op n (st_matmul a b)"
  using frame_op_st_new
  by (auto simp: frame_op_def st_matmul_def split: sum.splits)

lemma fresh_op_st_matmul [simp]: "fresh_op n (st_matmul a b)"
  using fresh_op_st_new
  by (auto simp: fresh_op_def st_matmul_def split: sum.splits)

lemma frame_op_st_mul_scalar [simp]: "frame_op n (st_mul_scalar h c)"
  using frame_op_st_new by (auto simp: frame_op_def st_mul_scalar_def split: sum.splits)

lemma fresh_op_st_mul_scalar [simp]: "fresh_op n (st_mul_scalar h c)"
  using fresh_op_st_new by (auto simp: fresh_op_def st_mul_scalar_def split: sum.splits)

lemma frame_op_st_ones_like [simp]: "frame_op n (st_ones_like h)"
  using frame_op_st_new by (auto simp: frame_op_def st_ones_like_def)

lemma frame_op_st_triu [simp]: "frame_op n (st_triu g h)"
  using frame_op_st_new by (auto simp: frame_op_def st_triu_def split: sum.splits)

lemma frame_op_st_bool [simp]: "frame_op n (st_bool h)"
  using frame_op_st_new by (auto simp: frame_op_def st_bool_def split: sum.splits)

lemma frame_op_st_softmax [simp]: "frame_op n (st_softmax h)"
  using frame_op_st_new by (auto simp: frame_op_def st_softmax_def)

lemma frame_op_st_reshape [simp]: "frame_op n (st_reshape shp h)"
  by (auto simp: frame_op_def st_reshape_def new_tensor_def frame_def split: sum.splits)

lemma frame_op_st_to_heads [simp]: "frame_op n (st_to_heads b s h d x)"
  unfolding st_to_heads_def by (intro frame_op_bind) simp_all

lemma frame_op_st_attn_scores [simp]: "frame_op n (st_attn_scores q k c)"
  unfolding st_attn_scores_def by (intro frame_op_bind) simp_all

lemma fresh_op_st_attn_scores [simp]: "fresh_op n (st_attn_scores q k c)"
  unfolding st_attn_scores_def by (intro fresh_op_bind frame_op_bind) simp_all

lemma frame_op_st_causal_mask [simp]: "frame_op n (st_causal_mask scores)"
  unfolding st_causal_mask_def by (intro frame_op_bind) simp_all

lemma frame_st_masked_fill_neg_inf:
  "n \<le> h_addr h \<Longrightarrow> frame n w (st_masked_fill_neg_inf h m w)"
  by (simp add: st_masked_fill_neg_inf_def frame_def)

lemma frame_op_masking:
  "n \<le> h_addr scores \<Longrightarrow>
   frame_op n (if causal
               then bind_st (st_causal_mask scores) (\<lambda>m w'. (Inr (), st_masked_fill_neg_inf scores m w'))
               else lift_st (Inr ()))"
proof (cases causal)
  case True
  assume n: "n \<le> h_addr scores"
  have "frame_op n (bind_st (st_causal_mask scores) (\<lambda>m w'. (Inr (), st_masked_fill_neg_inf scores m w')))"
  proof (rule frame_op_bind)
    show "frame_op n (st_causal_mask scores)" by simp
  next
    fix m
    show "frame_op n (\<lambda>w'. (Inr (), st_masked_fill_neg_inf scores m w'))"
      by (simp add: frame_op_def frame_st_masked_fill_neg_inf[OF n])
  qed
  then show ?thesis using True by simp
next
  case False
  then show ?thesis by simp
qed

lemma frame_call_flash_attn_func:
  "frame (next_addr w) w
     (snd (call_flash_attn_func q k v dropout_p softmax_scale causal window_size alibi_slopes deterministic w))"
proof -
  let ?n = "next_addr w"
  let ?w0 = "warn ''Using CPU fallback for Flash Attention. Performance will be slower than CUDA implementation.'' w"
  have 0: "frame ?n w ?w0" "?n \<le> next_addr ?w0" by (simp_all add: warn_def frame_def)
  have "frame_op ?n
     (bind_st (lift_st (unpack4 (shape (h_view q)))) (\<lambda>(batch, seqlen, nheads, headdim).
      bind_st (lift_st (effective_scale softmax_scale headdim)) (\<lambda>c.
      bind_st (st_to_heads batch seqlen nheads headdim q) (\<lambda>q'.
      bind_st (st_to_heads batch seqlen nheads headdim k) (\<lambda>k'.
      bind_st (st_to_heads batch seqlen nheads headdim v) (\<lambda>v'.
      bind_st (st_attn_scores q' k' c) (\<lambda>scores.
      bind_st (if causal
               then bind_st (st_causal_mask scores) (\<lambda>m w'. (Inr (), st_masked_fill_neg_inf scores m w'))
               else lift_st (Inr ())) (\<lambda>_.
      bind_st (st_softmax scores) (\<lambda>attn_weights.
      bind_st (st_matmul attn_weights v') (\<lambda>out.
      bind_st (st_reshape [batch, nheads, seqlen, headdim] out) (\<lambda>out'.
      lift_st (st_transpose 1 2 out'))))))))))))"
    apply (rule frame_op_bind, simp)
    apply (simp only: split_paired_all prod.case)
    apply (rule frame_op_bind, simp)
    apply (rule frame_op_bind, simp)
    apply (rule frame_op_bind, simp)
    apply (rule frame_op_bind, simp)
    apply (rule frame_op_bind_fresh, simp, simp)
    apply (rule frame_op_bind, erule frame_op_masking)
    apply (rule frame_op_bind, simp)
    apply (rule frame_op_bind, simp)
    apply (rule frame_op_bind, simp)
    apply simp
    done
  then show ?thesis
    unfolding call_flash_attn_func_def using 0 by (auto simp: frame_op_def intro: frame_trans)
qed

lemma quiet_bind: "quiet f \<Longrightarrow> (\<And>x. quiet (g x)) \<Longrightarrow> quiet (bind_st f g)"
  unfolding quiet_def bind_st_def
  by (auto split: prod.splits sum.splits) (metis snd_conv)+

lemma quiet_lift [simp]: "quiet (lift_st r)"
  by (simp add: quiet_def lift_st_def)

lemma quiet_st_new [simp]: "quiet (st_new t)"
  by (simp add: quiet_def st_new_def new_tensor_def)

lemma quiet_st_matmul [simp]: "quiet (st_matmul a b)"
  using quiet_st_new by (auto simp: quiet_def st_matmul_def split: sum.splits)

lemma quiet_st_mul_scalar [simp]: "quiet (st_mul_scalar h c)"
  using quiet_st_new by (auto simp: quiet_def st_mul_scalar_def split: sum.splits)

lemma quiet_st_ones_like [simp]: "quiet (st_ones_like h)"
  using quiet_st_new by (auto simp: quiet_def st_ones_like_def)

lemma quiet_st_triu [simp]: "quiet (st_triu g h)"
  using quiet_st_new by (auto simp: quiet_def st_triu_def split: sum.splits)

lemma quiet_st_bool [simp]: "quiet (st_bool h)"
  using quiet_st_new by (auto simp: quiet_def st_bool_def split: sum.splits)

lemma quiet_st_softmax [simp]: "quiet (st_softmax h)"
  using quiet_st_new by (auto simp: quiet_def st_softmax_def)

lemma quiet_st_reshape [simp]: "quiet (st_reshape shp h)"
  by (auto simp: quiet_def st_reshape_def new_tensor_def split: sum.splits)

lemma quiet_st_to_heads [simp]: "quiet (st_to_heads b s h d x)"
  unfolding st_to_heads_def by (intro quiet_bind) simp_all

lemma quiet_st_attn_scores [simp]: "quiet (st_attn_scores q k c)"
  unfolding st_attn_scores_def by (intro quiet_bind) simp_all

lemma quiet_st_causal_mask [simp]: "quiet (st_causal_mask scores)"
  unfolding st_causal_mask_def by (intro quiet_bind) simp_all

lemma quiet_masking [simp]:
  "quiet (if causal
          then bind_st (st_causal_mask scores) (\<lambda>m w'. (Inr (), st_masked_fill_neg_inf scores m w'))
          else lift_st (Inr ()))"
proof (cases causal)
  case True
  have "quiet (bind_st (st_causal_mask scores) (\<lambda>m w'. (Inr (), st_masked_fill_neg_inf scores m w')))"
  proof (rule quiet_bind)
    show "quiet (st_causal_mask scores)" by simp
  next
    fix m
    show "quiet (\<lambda>w'. (Inr (), st_masked_fill_neg_inf scores m w'))"
      by (simp add: quiet_def st_masked_fill_neg_inf_def)
  qed
  then show ?thesis using True by simp
next
  case False
  then show ?thesis by simp
qed

lemma quiet_call_flash_attn_func [simp]:
  "quiet (call_flash_attn_func q k v dropout_p softmax_scale causal window_size alibi_slopes deterministic)"
proof -
  have "quiet
     (bind_st (lift_st (unpack4 (shape (h_view q)))) (\<lambda>(batch, seqlen, nheads, headdim).
      bind_st (lift_st (effective_scale softmax_scale headdim)) (\<lambda>c.
      bind_st (st_to_heads batch seqlen nheads headdim q) (\<lambda>q'.
      bind_st (st_to_heads batch seqlen nheads headdim k) (\<lambda>k'.
      bind_st (st_to_heads batch seqlen nheads headdim v) (\<lambda>v'.
      bind_st (st_attn_scores q' k' c) (\<lambda>scores.
      bind_st (if causal
               then bind_st (st_causal_mask scores) (\<lambda>m w'. (Inr (), st_masked_fill_neg_inf scores m w'))
               else lift_st (Inr ())) (\<lambda>_.
      bind_st (st_softmax scores) (\<lambda>attn_weights.
      bind_st (st_matmul attn_weights v') (\<lambda>out.
      bind_st (st_reshape [batch, nheads, seqlen, headdim] out) (\<lambda>out'.
      lift_st (st_transpose 1 2 out'))))))))))))"
    apply (rule quiet_bind, simp)
    apply (simp only: split_paired_all prod.case)
    apply (intro quiet_bind quiet_masking)
              apply simp_all
    done
  then show ?thesis
    unfolding call_flash_attn_func_def quiet_def by (simp add: warn_def)
qed

lemma quiet_call_flash_attn_varlen_func [simp]:
  "quiet (call_flash_attn_varlen_func q k v cu_seqlens_q cu_seqlens_k max_seqlen_q max_seqlen_k
            dropout_p softmax_scale causal window_size alibi_slopes deterministic)"
  using quiet_call_flash_attn_func
  unfolding call_flash_attn_varlen_func_def quiet_def by (simp add: warn_def)

lemma quiet_call_forward [simp]: "quiet (call_forward self q k v causal)"
  using quiet_call_flash_attn_func unfolding call_forward_def by simp

lemma step_stdout:
  "stdout (step e w) = stdout w @ replicate (body_runs (module_loaded w) [e]) advisory"
  "module_loaded (step e w) \<longleftrightarrow> module_loaded w \<or> e = Import"
  using quiet_call_flash_attn_func quiet_call_flash_attn_varlen_func quiet_call_forward
  by (cases e; simp add: import_module_def reload_module_def module_body_def quiet_def)+

lemma body_runs_step:
  "body_runs loaded (e # es) = body_runs loaded [e] + body_runs (loaded \<or> e = Import) es"
  by (cases e) simp_all

lemma run_stdout:
  "stdout (run es w) = stdout w @ replicate (body_runs (module_loaded w) es) advisory"
proof (induction es arbitrary: w)
  case Nil
  show ?case by (simp add: run_def)
next
  case (Cons e es)
  have "run (e # es) w = run es (step e w)" by (simp add: run_def)
  then show ?case
    using Cons.IH[of "step e w"] body_runs_step[of "module_loaded w" e es]
    by (simp add: step_stdout replicate_add)
qed

lemma body_runs_no_reload:
  "Reload \<notin> set es \<Longrightarrow>
   body_runs loaded es = (if Import \<in> set es \<and> \<not> loaded then 1 else 0)"
proof (induction es arbitrary: loaded)
  case Nil
  show ?case by simp
next
  case (Cons e es)
  then show ?case by (cases e) auto
qed




text \<open>
  C9: a call of \<open>flash_attn_func\<close> leaves every storage that existed before the call as it
  was, on the causal path too and when the call raises; the query, key and value therefore
  show the same elements after the call as before. The write of \<open>masked_fill_\<close> goes to the
  storage of the scores, which the call allocated.
\<close>

theorem inputs_not_mutated:
  assumes "h_addr q < next_addr w" "h_addr k < next_addr w" "h_addr v < next_addr w"
  shows "load (snd (call_flash_attn_func q k v dropout_p softmax_scale causal window_size alibi_slopes deterministic w)) q = load w q
       \<and> load (snd (call_flash_attn_func q k v dropout_p softmax_scale causal window_size alibi_slopes deterministic w)) k = load w k
       \<and> load (snd (call_flash_attn_func q k v dropout_p softmax_scale causal window_size alibi_slopes deterministic w)) v = load w v
       \<and> (\<forall>a<next_addr w.
             cells (snd (call_flash_attn_func q k v dropout_p softmax_scale causal window_size alibi_slopes deterministic w)) a
             = cells w a)"
  using frame_call_flash_attn_func[of w q k v dropout_p softmax_scale causal window_size alibi_slopes deterministic] assms
  by (simp add: frame_def load_def)

theorem inputs_not_mutated_witness:
  "load (snd (call_flash_attn_func (example_handle 0) (example_handle 0) (example_handle 1)
               0 None True (- 1, - 1) None False example_world)) (example_handle 1)
   = \<lparr>shape = [1, 2, 1, 1], dtype = Float32, data = [Fin 10, Fin 20]\<rparr>"
  using inputs_not_mutated[of "example_handle 0" example_world "example_handle 0" "example_handle 1"
      0 None True "(- 1, - 1)" None False]
  by (simp add: example_world_def example_handle_def load_def)

section \<open>The call computes the value-level function\<close>

lemma map_tensor_simps [simp]:
  "shape (map_tensor f t) = shape t" "dtype (map_tensor f t) = dtype t"
  "data (map_tensor f t) = map f (data t)"
  by (simp_all add: map_tensor_def)

lemma wf_map_tensor [simp]: "well_formed (map_tensor f t) \<longleftrightarrow> well_formed t"
  by (simp add: well_formed_def)

lemma load_map_tensor: "load w h = map_tensor (\<lambda>p. cells w (h_addr h) ! p) (h_view h)"
  by (simp add: load_def map_tensor_def)

lemma finite_scores_map_tensor: "finite_scores T = map_tensor Fin T"
  by (simp add: finite_scores_def map_tensor_def)

lemma map_tensor_tabulate: "map_tensor f (tabulate shp dt g) = tabulate shp dt (\<lambda>idx. f (g idx))"
  by (simp add: map_tensor_def tabulate_def)

lemma valid_index_nth:
  "valid_index shp idx \<longleftrightarrow> length idx = length shp \<and> (\<forall>i<length shp. idx ! i < shp ! i)"
  by (auto simp: valid_index_def list_all2_conv_all_nth)

lemma valid_index_swap_at:
  assumes "a < length shp" "b < length shp" "valid_index (swap_at a b shp) idx"
  shows "valid_index shp (swap_at a b idx)"
  using assms unfolding valid_index_nth swap_at_def
  by (auto simp: nth_list_update split: if_splits)

lemma elem_at_map_tensor:
  "well_formed t \<Longrightarrow> valid_index (shape t) idx \<Longrightarrow> elem_at (map_tensor f t) idx = f (elem_at t idx)"
  using flat_index_less[of "shape t" idx] by (simp add: elem_at_def well_formed_def)

lemma wrap_dim_less: "wrap_dim n d = Inr a \<Longrightarrow> a < n"
  by (auto simp: wrap_dim_def split: if_splits)

lemma transpose_t_map_tensor:
  assumes "well_formed t"
  shows "transpose_t d0 d1 (map_tensor f t) = map_sum id (map_tensor f) (transpose_t d0 d1 t)"
proof (cases "wrap_dim (length (shape t)) d0")
  case (Inl e)
  then show ?thesis by (simp add: transpose_t_def)
next
  case a: (Inr a)
  show ?thesis
  proof (cases "wrap_dim (length (shape t)) d1")
    case (Inl e)
    then show ?thesis using a by (simp add: transpose_t_def)
  next
    case b: (Inr b)
    have "tabulate (swap_at a b (shape t)) (dtype t) (\<lambda>idx. elem_at (map_tensor f t) (swap_at a b idx))
        = tabulate (swap_at a b (shape t)) (dtype t) (\<lambda>idx. f (elem_at t (swap_at a b idx)))"
      by (rule tabulate_cong)
         (simp add: elem_at_map_tensor[OF assms] valid_index_swap_at wrap_dim_less[OF a] wrap_dim_less[OF b])
    then show ?thesis using a b by (simp add: transpose_t_def map_tensor_tabulate)
  qed
qed

lemma reshape_map_tensor:
  "reshape shp (map_tensor f t) = map_sum id (map_tensor f) (reshape shp t)"
  by (simp add: reshape_def map_tensor_def)

lemma map_tensor_Fin_inject: "map_tensor Fin T = map_tensor Fin T' \<Longrightarrow> T = T'"
  by (cases T, cases T') (simp add: map_tensor_def inj_on_def inj_map_eq_map[OF injI])

lemma those_map_Some: "those (map (\<lambda>x. Some (g x)) xs) = Some (map g xs)"
  by (induction xs) simp_all

lemma operand_denotes: "denotes w h T \<Longrightarrow> operand w h = Inr T"
proof -
  assume d: "denotes w h T"
  then have l: "load w h = finite_scores T" by (simp add: denotes_def)
  then have "data (load w h) = map Fin (data T)" by (simp add: finite_scores_def)
  then have "those (map fin_value (data (load w h))) = Some (data T)"
    using those_map_Some[of id "data T"] by (simp add: comp_def)
  moreover have "shape (h_view h) = shape T" "dtype (h_view h) = dtype T"
    using l by (simp_all add: load_def finite_scores_def)
  ultimately show ?thesis by (simp add: operand_def)
qed

lemma denotes_frame: "denotes w h T \<Longrightarrow> frame (next_addr w) w w' \<Longrightarrow> denotes w' h T"
  by (auto simp: denotes_def frame_def load_def)

lemma stable_denotes [simp]: "stable (\<lambda>w. denotes w h T)"
  by (auto simp: stable_def intro: denotes_frame)

lemma stable_conj [simp]: "stable J \<Longrightarrow> stable J' \<Longrightarrow> stable (\<lambda>w. J w \<and> J' w)"
  by (auto simp: stable_def)

lemma stable_const [simp]: "stable (\<lambda>w. P)"
  by (simp add: stable_def)

lemma refines_bind:
  assumes "refines I f p Q" "\<And>a x. p = Inr a \<Longrightarrow> refines (Q a x) (g x) (pg a) R"
  shows "refines I (bind_st f g) (case p of Inl e \<Rightarrow> Inl e | Inr a \<Rightarrow> pg a) R"
  unfolding refines_def
proof (intro allI impI)
  fix w assume I: "I w"
  show "case (case p of Inl e \<Rightarrow> Inl e | Inr a \<Rightarrow> pg a) of
         Inl e \<Rightarrow> fst (bind_st f g w) = Inl e
       | Inr a \<Rightarrow> \<exists>x. fst (bind_st f g w) = Inr x \<and> R a x (snd (bind_st f g w))"
  proof (cases p)
    case (Inl e)
    then have "fst (f w) = Inl e" using assms(1) I by (auto simp: refines_def)
    then show ?thesis using Inl by (cases "f w") (simp add: bind_st_def)
  next
    case (Inr a)
    then obtain x where x: "fst (f w) = Inr x" "Q a x (snd (f w))"
      using assms(1) I by (auto simp: refines_def)
    have b: "bind_st f g w = g x (snd (f w))"
      using x(1) by (cases "f w") (simp add: bind_st_def)
    show ?thesis using assms(2)[OF Inr, of x] x(2) Inr unfolding b refines_def by simp
  qed
qed

lemma refines_weaken:
  "refines I f p Q \<Longrightarrow> (\<And>w. I' w \<Longrightarrow> I w) \<Longrightarrow> (\<And>a x w. Q a x w \<Longrightarrow> Q' a x w) \<Longrightarrow> refines I' f p Q'"
  unfolding refines_def by (auto split: sum.splits) blast

lemma refines_assume: "(\<And>w. I w \<Longrightarrow> P) \<Longrightarrow> (P \<Longrightarrow> refines I f p Q) \<Longrightarrow> refines I f p Q"
  unfolding refines_def by blast

lemma refines_lift: "refines I (lift_st r) r (\<lambda>a x w. a = x \<and> I w)"
  by (auto simp: refines_def lift_st_def split: sum.splits)

lemma denotes_shape: "denotes w h T \<Longrightarrow> shape (h_view h) = shape T \<and> dtype (h_view h) = dtype T"
  by (auto simp: denotes_def load_def finite_scores_def)

lemma denotes_length: "denotes w h T \<Longrightarrow> length (data (h_view h)) = length (data T)"
proof -
  assume "denotes w h T"
  then have "data (load w h) = data (finite_scores T)" by (simp add: denotes_def)
  then have "length (data (load w h)) = length (data (finite_scores T))" by simp
  then show ?thesis by (simp add: load_def finite_scores_def)
qed

lemma denotes_wf_view: "denotes w h T \<Longrightarrow> well_formed (h_view h)"
  using denotes_shape[of w h T] denotes_length[of w h T] by (simp add: well_formed_def denotes_def)

lemma new_tensor_allocated:
  assumes "well_formed T" "stable J" "J w" "x < next_addr w"
  shows "fst (st_new T w) = Inr (fst (new_tensor (finite_scores T) w))"
    and "allocated x J T (fst (new_tensor (finite_scores T) w)) (snd (st_new T w))"
proof -
  let ?h = "fst (new_tensor (finite_scores T) w)" and ?w = "snd (new_tensor (finite_scores T) w)"
  show 1: "fst (st_new T w) = Inr ?h" by (simp add: st_new_def split: prod.splits)
  have 2: "snd (st_new T w) = ?w" by (simp add: st_new_def split: prod.splits)
  have fr: "frame (next_addr w) w ?w" by (simp add: new_tensor_def frame_def)
  have "map ((!) (map Fin (data T))) [0..<length (data T)] = map Fin (data T)"
    using map_nth[of "map Fin (data T)"] by simp
  then have "load ?w ?h = finite_scores T"
    by (simp add: load_def new_tensor_def finite_scores_def)
  moreover have "list_all (\<lambda>p. p < length (cells ?w (h_addr ?h))) (data (h_view ?h))"
    by (simp add: new_tensor_def finite_scores_def list_all_iff)
  ultimately have "denotes ?w ?h T"
    using assms(1) by (simp add: denotes_def new_tensor_def)
  moreover have "J ?w" using assms(2,3) fr by (auto simp: stable_def)
  moreover have "h_addr ?h \<noteq> x" "x < next_addr ?w" using assms(4) by (simp_all add: new_tensor_def)
  moreover have "data (h_view ?h) = [0..<length (data T)]"
    by (simp add: new_tensor_def finite_scores_def)
  ultimately show "allocated x J T ?h (snd (st_new T w))"
    unfolding 2 allocated_def by simp
qed

lemma refines_st_new:
  assumes "well_formed T" "stable J"
  shows "refines (\<lambda>w. J w \<and> x < next_addr w) (st_new T) (Inr T) (\<lambda>T' h w. T' = T \<and> allocated x J T h w)"
  unfolding refines_def using new_tensor_allocated[OF assms] by auto

lemma transpose_t_data_subset:
  assumes "well_formed t" "transpose_t d0 d1 t = Inr t'"
  shows "set (data t') \<subseteq> set (data t)"
proof -
  from assms(2) obtain a b where a: "wrap_dim (length (shape t)) d0 = Inr a"
    and b: "wrap_dim (length (shape t)) d1 = Inr b"
    and t': "t' = tabulate (swap_at a b (shape t)) (dtype t) (\<lambda>idx. elem_at t (swap_at a b idx))"
    by (auto simp: transpose_t_def split: sum.splits)
  show ?thesis
  proof
    fix p assume "p \<in> set (data t')"
    then obtain idx where idx: "valid_index (swap_at a b (shape t)) idx" and p: "p = elem_at t (swap_at a b idx)"
      unfolding t' by (auto simp: data_tabulate set_indices)
    have "valid_index (shape t) (swap_at a b idx)"
      using idx by (intro valid_index_swap_at wrap_dim_less[OF a] wrap_dim_less[OF b])
    then have "flat_index (shape t) (swap_at a b idx) < length (data t)"
      using flat_index_less assms(1) by (simp add: well_formed_def)
    then show "p \<in> set (data t)" unfolding p elem_at_def by (rule nth_mem)
  qed
qed

lemma transpose_t_wf: "transpose_t d0 d1 t = Inr t' \<Longrightarrow> well_formed t'"
  by (auto simp: transpose_t_def split: sum.splits)

lemma refines_st_transpose:
  "refines (\<lambda>w. denotes w h T \<and> J w) (lift_st (st_transpose d0 d1 h)) (transpose_t d0 d1 T)
     (\<lambda>T' h' w. denotes w h' T' \<and> h_addr h' = h_addr h \<and> J w)"
  unfolding refines_def
proof (intro allI impI)
  fix w assume "denotes w h T \<and> J w"
  then have d: "denotes w h T" and J: "J w" by simp_all
  let ?g = "\<lambda>p. cells w (h_addr h) ! p"
  have eq: "map_tensor ?g (h_view h) = map_tensor Fin T"
    using d by (simp add: denotes_def load_map_tensor finite_scores_map_tensor)
  have wfT: "well_formed T" using d by (simp add: denotes_def)
  have "map_sum id (map_tensor ?g) (transpose_t d0 d1 (h_view h))
      = map_sum id (map_tensor Fin) (transpose_t d0 d1 T)"
    using transpose_t_map_tensor[OF denotes_wf_view[OF d], of d0 d1 ?g]
      transpose_t_map_tensor[OF wfT, of d0 d1 Fin] eq by simp
  then have ms: "map_sum id (map_tensor ?g) (transpose_t d0 d1 (h_view h))
      = map_sum id (map_tensor Fin) (transpose_t d0 d1 T)" .
  show "case transpose_t d0 d1 T of
       Inl e \<Rightarrow> fst (lift_st (st_transpose d0 d1 h) w) = Inl e
     | Inr a \<Rightarrow> \<exists>x. fst (lift_st (st_transpose d0 d1 h) w) = Inr x \<and>
         (denotes (snd (lift_st (st_transpose d0 d1 h) w)) x a \<and> h_addr x = h_addr h \<and> J (snd (lift_st (st_transpose d0 d1 h) w)))"
  proof (cases "transpose_t d0 d1 (h_view h)")
    case (Inl e)
    then show ?thesis using ms by (cases "transpose_t d0 d1 T") (simp_all add: lift_st_def st_transpose_def)
  next
    case (Inr view)
    then obtain T' where T': "transpose_t d0 d1 T = Inr T'" and eq': "map_tensor ?g view = map_tensor Fin T'"
      using ms by (cases "transpose_t d0 d1 T") simp_all
    let ?h' = "h\<lparr>h_view := view\<rparr>"
    have "set (data view) \<subseteq> set (data (h_view h))"
      using transpose_t_data_subset[OF denotes_wf_view[OF d] Inr] .
    then have "list_all (\<lambda>p. p < length (cells w (h_addr h))) (data view)"
      using d by (auto simp: denotes_def list_all_iff)
    then have "denotes w ?h' T'"
      using d eq' transpose_t_wf[OF T']
      by (simp add: denotes_def load_map_tensor finite_scores_map_tensor)
    then show ?thesis using Inr T' J by (simp add: lift_st_def st_transpose_def)
  qed
qed

lemma reshape_wf: "reshape shp t = Inr t' \<Longrightarrow> well_formed t'"
  by (auto simp: reshape_def well_formed_def split: if_splits)

lemma refines_st_reshape:
  assumes "stable J"
  shows "refines (\<lambda>w. denotes w h T \<and> J w) (st_reshape shp h) (reshape shp T)
     (\<lambda>T' h' w. denotes w h' T' \<and> J w)"
  unfolding refines_def
proof (intro allI impI)
  fix w assume "denotes w h T \<and> J w"
  then have d: "denotes w h T" and J: "J w" by simp_all
  have len: "length (data (h_view h)) = length (data T)" by (rule denotes_length[OF d])
  show "case reshape shp T of
       Inl e \<Rightarrow> fst (st_reshape shp h w) = Inl e
     | Inr a \<Rightarrow> \<exists>x. fst (st_reshape shp h w) = Inr x \<and>
         (denotes (snd (st_reshape shp h w)) x a \<and> J (snd (st_reshape shp h w)))"
  proof (cases "prod_list shp = length (data T)")
    case False
    then show ?thesis using len by (simp add: reshape_def st_reshape_def)
  next
    case True
    have T': "reshape shp T = Inr (T\<lparr>shape := shp\<rparr>)" using True by (simp add: reshape_def)
    have v': "reshape shp (h_view h) = Inr ((h_view h)\<lparr>shape := shp\<rparr>)"
      using True len by (simp add: reshape_def)
    have wf': "well_formed (T\<lparr>shape := shp\<rparr>)" by (rule reshape_wf[OF T'])
    have ld: "(load w h)\<lparr>shape := shp\<rparr> = finite_scores (T\<lparr>shape := shp\<rparr>)"
      using d by (simp add: denotes_def finite_scores_def)
    show ?thesis
    proof (cases "reshape_as_view w (h_view h) shp")
      case True
      have l2: "load w (h\<lparr>h_view := (h_view h)\<lparr>shape := shp\<rparr>\<rparr>) = (load w h)\<lparr>shape := shp\<rparr>"
        by (simp add: load_def)
      have "denotes w (h\<lparr>h_view := (h_view h)\<lparr>shape := shp\<rparr>\<rparr>) (T\<lparr>shape := shp\<rparr>)"
        unfolding denotes_def l2 ld using d wf' by (simp add: denotes_def)
      then show ?thesis using True T' v' J by (simp add: st_reshape_def)
    next
      case False
      have x: "h_addr h < next_addr w" using d by (simp add: denotes_def)
      note al = new_tensor_allocated[OF wf' assms J x]
      have "st_reshape shp h w = (Inr (fst (new_tensor (finite_scores (T\<lparr>shape := shp\<rparr>)) w)),
                snd (st_new (T\<lparr>shape := shp\<rparr>) w))"
        using False v' ld by (simp add: st_reshape_def st_new_def split: prod.splits)
      then show ?thesis using al(2) T' by (simp add: allocated_def)
    qed
  qed
qed

lemma refines_st_to_heads:
  assumes "stable J"
  shows "refines (\<lambda>w. denotes w h T \<and> J w) (st_to_heads b s nh d h) (to_heads b s nh d T)
     (\<lambda>T' h' w. denotes w h' T' \<and> J w)"
  unfolding st_to_heads_def to_heads_def
  by (rule refines_bind[OF refines_st_transpose])
     (rule refines_weaken[OF refines_st_reshape[where J = J, OF assms]], simp_all)

lemma refines_computed:
  assumes "\<And>w. I w \<Longrightarrow> J w \<and> x < next_addr w" "stable J"
    and "\<And>w. I w \<Longrightarrow> f w = (case p of Inl e \<Rightarrow> (Inl e, w) | Inr T \<Rightarrow> st_new T w)"
    and "\<And>w T. I w \<Longrightarrow> p = Inr T \<Longrightarrow> well_formed T"
  shows "refines I f p (allocated x J)"
  unfolding refines_def
proof (intro allI impI)
  fix w assume I: "I w"
  show "case p of Inl e \<Rightarrow> fst (f w) = Inl e
        | Inr a \<Rightarrow> \<exists>h. fst (f w) = Inr h \<and> allocated x J a h (snd (f w))"
  proof (cases p)
    case (Inl e)
    then show ?thesis using assms(3)[OF I] by simp
  next
    case (Inr T)
    have "J w" "x < next_addr w" using assms(1)[OF I] by simp_all
    from new_tensor_allocated[OF assms(4)[OF I Inr] assms(2) this]
    show ?thesis using Inr assms(3)[OF I] by simp
  qed
qed

lemma matmul_wf: "matmul a b = Inr t \<Longrightarrow> well_formed t"
  by (auto simp: matmul_def split: list.splits if_splits)

lemma refines_st_matmul:
  assumes "stable J"
  shows "refines (\<lambda>w. denotes w a A \<and> denotes w b B \<and> J w \<and> x < next_addr w) (st_matmul a b) (matmul A B)
     (allocated x J)"
  by (rule refines_computed[where J = J])
     (auto simp: assms st_matmul_def operand_denotes matmul_wf split: sum.splits)

lemma refines_st_mul_scalar:
  assumes "stable J"
  shows "refines (\<lambda>w. denotes w h T \<and> J w \<and> x < next_addr w) (st_mul_scalar h c) (Inr (mul_scalar T c))
     (allocated x J)"
  by (rule refines_computed[where J = J])
     (auto simp: assms st_mul_scalar_def operand_denotes denotes_def well_formed_def mul_scalar_def)

lemma ones_like_load: "denotes w h T \<Longrightarrow> ones_like (load w h) = ones_like T"
  by (simp add: denotes_def ones_like_def finite_scores_def)

lemma refines_st_ones_like:
  assumes "stable J"
  shows "refines (\<lambda>w. denotes w h T \<and> J w \<and> x < next_addr w) (st_ones_like h) (Inr (ones_like T))
     (allocated x J)"
  by (rule refines_computed[where J = J])
     (auto simp: assms st_ones_like_def ones_like_load, simp add: denotes_def well_formed_def ones_like_def)

lemma triu_wf: "triu g t = Inr t' \<Longrightarrow> well_formed t'"
  by (auto simp: triu_def split: if_splits)

lemma refines_st_triu:
  assumes "stable J"
  shows "refines (\<lambda>w. denotes w h T \<and> J w \<and> x < next_addr w) (st_triu g h) (triu g T)
     (allocated x J)"
  by (rule refines_computed[where J = J])
     (auto simp: assms st_triu_def operand_denotes triu_wf split: sum.splits)

lemma refines_st_bool:
  assumes "stable J"
  shows "refines (\<lambda>w. denotes w h T \<and> J w \<and> x < next_addr w) (st_bool h) (Inr (to_bool T))
     (\<lambda>B. allocated x J (flags B))"
proof -
  have "refines (\<lambda>w. denotes w h T \<and> J w \<and> x < next_addr w) (st_bool h) (Inr (flags (to_bool T)))
     (allocated x J)"
    by (rule refines_computed[where J = J])
       (auto simp: assms st_bool_def operand_denotes denotes_def well_formed_def flags_def to_bool_def)
  then show ?thesis by (simp add: refines_def)
qed

lemma refines_st_attn_scores:
  assumes "stable J"
  shows "refines (\<lambda>w. denotes w q Q \<and> denotes w k K \<and> J w \<and> x < next_addr w)
           (st_attn_scores q k c) (attn_scores Q K c) (allocated x J)"
proof -
  let ?Q1 = "\<lambda>KT kt w. denotes w kt KT \<and> h_addr kt = h_addr k \<and> (denotes w q Q \<and> J w \<and> x < next_addr w)"
  have 1: "refines (\<lambda>w. denotes w q Q \<and> denotes w k K \<and> J w \<and> x < next_addr w)
            (lift_st (st_transpose (- 2) (- 1) k)) (transpose_t (- 2) (- 1) K) ?Q1"
    by (rule refines_weaken[OF refines_st_transpose[where J = "\<lambda>w. denotes w q Q \<and> J w \<and> x < next_addr w"]])
       simp_all
  have 2: "refines (?Q1 KT kt) (bind_st (st_matmul q kt) (\<lambda>qk. st_mul_scalar qk c))
             (case matmul Q KT of Inl e \<Rightarrow> Inl e | Inr qk \<Rightarrow> Inr (mul_scalar qk c)) (allocated x J)" for KT kt
  proof (rule refines_bind)
    show "refines (?Q1 KT kt) (st_matmul q kt) (matmul Q KT) (allocated x J)"
      by (rule refines_weaken[OF refines_st_matmul[where J = J, OF assms]]) simp_all
  next
    fix QK qk
    show "refines (allocated x J QK qk) (st_mul_scalar qk c) (Inr (mul_scalar QK c)) (allocated x J)"
      by (rule refines_weaken[OF refines_st_mul_scalar[where J = J, OF assms]]) (simp_all add: allocated_def)
  qed
  show ?thesis unfolding st_attn_scores_def attn_scores_def by (rule refines_bind[OF 1 2])
qed

lemma refines_st_causal_mask:
  assumes "stable J"
  shows "refines (\<lambda>w. denotes w scores S \<and> J w \<and> x < next_addr w)
           (st_causal_mask scores) (causal_mask S) (\<lambda>B. allocated x J (flags B))"
proof -
  have 1: "refines (\<lambda>w. denotes w scores S \<and> J w \<and> x < next_addr w)
            (st_ones_like scores) (Inr (ones_like S)) (allocated x J)"
    by (rule refines_st_ones_like[OF assms])
  have 2: "refines (allocated x J ON ones) (bind_st (st_triu 1 ones) st_bool)
             (case triu 1 ON of Inl e \<Rightarrow> Inl e | Inr u \<Rightarrow> Inr (to_bool u)) (\<lambda>B. allocated x J (flags B))" for ON ones
  proof (rule refines_bind)
    show "refines (allocated x J ON ones) (st_triu 1 ones) (triu 1 ON) (allocated x J)"
      by (rule refines_weaken[OF refines_st_triu[where J = J, OF assms]]) (simp_all add: allocated_def)
  next
    fix U upper
    show "refines (allocated x J U upper) (st_bool upper) (Inr (to_bool U)) (\<lambda>B. allocated x J (flags B))"
      by (rule refines_weaken[OF refines_st_bool[where J = J, OF assms]]) (simp_all add: allocated_def)
  qed
  have "refines (\<lambda>w. denotes w scores S \<and> J w \<and> x < next_addr w)
          (bind_st (st_ones_like scores) (\<lambda>ones. bind_st (st_triu 1 ones) st_bool))
          (case Inr (ones_like S) of Inl e \<Rightarrow> Inl e
           | Inr ON \<Rightarrow> (case triu 1 ON of Inl e \<Rightarrow> Inl e | Inr u \<Rightarrow> Inr (to_bool u)))
          (\<lambda>B. allocated x J (flags B))"
    by (rule refines_bind[OF 1 2])
  then show ?thesis by (simp add: st_causal_mask_def causal_mask_def)
qed

lemma fold_fill:
  "length ms \<le> length cs \<Longrightarrow>
   fold (\<lambda>(p, c) cs. if c = Fin 0 then cs else cs[p := NegInf]) (zip [0..<length ms] ms) cs
   = map2 (\<lambda>c m. if m = Fin 0 then c else NegInf) (take (length ms) cs) ms @ drop (length ms) cs"
proof (induction ms rule: rev_induct)
  case Nil
  show ?case by simp
next
  case (snoc m ms)
  let ?n = "length ms"
  let ?g = "\<lambda>c m. if m = Fin 0 then c else NegInf"
  define A where "A = map2 ?g (take ?n cs) ms"
  have n: "?n < length cs" using snoc.prems by simp
  have z: "zip [0..<length (ms @ [m])] (ms @ [m]) = zip [0..<?n] ms @ [(?n, m)]" by simp
  have ih: "fold (\<lambda>(p, c) cs. if c = Fin 0 then cs else cs[p := NegInf]) (zip [0..<?n] ms) cs
      = A @ drop ?n cs"
    using snoc.IH n by (simp add: A_def)
  have len: "length A = ?n" using n by (simp add: A_def)
  have dr: "drop ?n cs = cs ! ?n # drop (Suc ?n) cs" using n by (simp add: Cons_nth_drop_Suc)
  have upd: "(A @ drop ?n cs)[?n := NegInf] = A @ NegInf # drop (Suc ?n) cs"
    using list_update_length[of A "cs ! ?n" "drop (Suc ?n) cs" NegInf] len dr by simp
  have rhs: "map2 ?g (take (length (ms @ [m])) cs) (ms @ [m]) = A @ [?g (cs ! ?n) m]"
    using n by (simp add: take_Suc_conv_app_nth A_def)
  have "fold (\<lambda>(p, c) cs. if c = Fin 0 then cs else cs[p := NegInf]) (zip [0..<length (ms @ [m])] (ms @ [m])) cs
      = (if m = Fin 0 then A @ drop ?n cs else (A @ drop ?n cs)[?n := NegInf])"
    unfolding z fold_append comp_def ih by simp
  also have "\<dots> = A @ [?g (cs ! ?n) m] @ drop (Suc ?n) cs"
    using upd dr by simp
  finally show ?case unfolding rhs by simp
qed

lemma map2_masked:
  "length xs = length bs \<Longrightarrow>
   map2 (\<lambda>c m. if m = Fin 0 then c else NegInf) (map Fin xs) (map Fin (map (\<lambda>b. if b then 1 else 0) bs))
   = map2 (\<lambda>x b. if b then NegInf else Fin x) xs bs"
  by (induction xs bs rule: list_induct2) simp_all

lemma causal_mask_length:
  "well_formed S \<Longrightarrow> causal_mask S = Inr B \<Longrightarrow> length (data B) = length (data S)"
  by (auto simp: causal_mask_def triu_def to_bool_def ones_like_def tabulate_def length_indices well_formed_def
      split: sum.splits if_splits)

lemma masked_fill_load:
  assumes "denotes w scores S" "data (h_view scores) = [0..<length (data S)]"
    and "denotes w m (flags B)" "length (data B) = length (data S)"
  shows "load (st_masked_fill_neg_inf scores m w) scores = masked_fill_neg_inf S B"
proof -
  let ?n = "length (data S)" and ?cs = "cells w (h_addr scores)"
  let ?ms = "map Fin (map (\<lambda>b. if b then 1 else 0) (data B))"
  let ?g = "\<lambda>c m. if m = Fin 0 then c else NegInf"
  have ms: "data (load w m) = ?ms"
    using assms(3) by (simp add: denotes_def finite_scores_def flags_def)
  have lms: "length ?ms = ?n" using assms(4) by simp
  have "list_all (\<lambda>p. p < length ?cs) [0..<?n]"
    using assms(1,2) by (simp add: denotes_def)
  then have n: "?n \<le> length ?cs"
    by (cases "?n") (auto simp: list_all_iff)
  have "map ((!) ?cs) [0..<?n] = map Fin (data S)"
    using assms(1,2) by (simp add: denotes_def load_def finite_scores_def)
  moreover have "map ((!) ?cs) [0..<?n] = take ?n ?cs"
    using n by (metis map_nth take_map take_upt add_0 le_refl min.absorb2 length_take nth_take_lemma
        length_map length_upt minus_nat.diff_0)
  ultimately have tk: "take ?n ?cs = map Fin (data S)" by simp
  have fd: "fold (\<lambda>(p, c) cs. if c = Fin 0 then cs else cs[p := NegInf]) (zip [0..<?n] ?ms) ?cs
      = map2 ?g (take ?n ?cs) ?ms @ drop ?n ?cs"
    using fold_fill[of ?ms ?cs] n lms by simp
  have A: "map2 ?g (take ?n ?cs) ?ms = map2 (\<lambda>x b. if b then NegInf else Fin x) (data S) (data B)"
    unfolding tk using assms(4) by (intro map2_masked) simp
  have lA: "length (map2 (\<lambda>x b. if b then NegInf else Fin x) (data S) (data B)) = ?n"
    using assms(4) by simp
  have "map ((!) (map2 (\<lambda>x b. if b then NegInf else Fin x) (data S) (data B) @ drop ?n ?cs)) [0..<?n]
      = map2 (\<lambda>x b. if b then NegInf else Fin x) (data S) (data B)"
    using lA by (intro nth_equalityI) (simp_all add: nth_append)
  moreover have "cells (st_masked_fill_neg_inf scores m w) (h_addr scores)
      = fold (\<lambda>(p, c) cs. if c = Fin 0 then cs else cs[p := NegInf]) (zip [0..<?n] ?ms) ?cs"
    unfolding st_masked_fill_neg_inf_def assms(2) ms by simp
  ultimately have dat: "map ((!) (cells (st_masked_fill_neg_inf scores m w) (h_addr scores))) [0..<?n]
      = map2 (\<lambda>x b. if b then NegInf else Fin x) (data S) (data B)"
    by (simp only: fd A)
  have "shape (h_view scores) = shape S" "dtype (h_view scores) = dtype S"
    using denotes_shape[OF assms(1)] by simp_all
  then show ?thesis
    unfolding load_def masked_fill_neg_inf_def assms(2) dat by simp
qed

lemma denotes_masked_fill:
  "denotes w x X \<Longrightarrow> h_addr h \<noteq> h_addr x \<Longrightarrow> denotes (st_masked_fill_neg_inf h m w) x X"
  by (simp add: denotes_def st_masked_fill_neg_inf_def load_def)

lemma refines_masking:
  "refines (allocated (h_addr v') (\<lambda>w. denotes w v' V') S scores)
     (if causal
      then bind_st (st_causal_mask scores) (\<lambda>m w'. (Inr (), st_masked_fill_neg_inf scores m w'))
      else lift_st (Inr ()))
     (if causal
      then (case causal_mask S of Inl e \<Rightarrow> Inl e | Inr B \<Rightarrow> Inr (masked_fill_neg_inf S B))
      else Inr (finite_scores S))
     (\<lambda>M u w. load w scores = M \<and> h_addr v' < next_addr w \<and> denotes w v' V')"
proof (cases causal)
  case False
  then show ?thesis
    by (auto simp: refines_def lift_st_def allocated_def denotes_def)
next
  case True
  let ?J = "\<lambda>w. denotes w scores S \<and> data (h_view scores) = [0..<length (data S)] \<and>
               h_addr scores \<noteq> h_addr v' \<and> denotes w v' V'"
  have st: "stable ?J" by simp
  have 1: "refines (allocated (h_addr v') (\<lambda>w. denotes w v' V') S scores)
             (st_causal_mask scores) (causal_mask S) (\<lambda>B. allocated (h_addr v') ?J (flags B))"
    by (rule refines_weaken[OF refines_st_causal_mask[where J = ?J and x = "h_addr v'", OF st]])
       (simp_all add: allocated_def)
  have 2: "refines (allocated (h_addr v') ?J (flags B) m)
             (\<lambda>w'. (Inr (), st_masked_fill_neg_inf scores m w'))
             (Inr (masked_fill_neg_inf S B))
             (\<lambda>M u w. load w scores = M \<and> h_addr v' < next_addr w \<and> denotes w v' V')"
    if B: "causal_mask S = Inr B" for B m
    unfolding refines_def
  proof (intro allI impI)
    fix w assume a: "allocated (h_addr v') ?J (flags B) m w"
    then have m: "denotes w m (flags B)" and s: "denotes w scores S"
      and c: "data (h_view scores) = [0..<length (data S)]" and ne: "h_addr scores \<noteq> h_addr v'"
      and v: "denotes w v' V'"
      by (simp_all add: allocated_def)
    have len: "length (data B) = length (data S)"
      using causal_mask_length[OF _ B] s by (simp add: denotes_def)
    have "load (st_masked_fill_neg_inf scores m w) scores = masked_fill_neg_inf S B"
      by (rule masked_fill_load[OF s c m len])
    moreover have "denotes (st_masked_fill_neg_inf scores m w) v' V'"
      by (rule denotes_masked_fill[OF v ne])
    ultimately show "case Inr (masked_fill_neg_inf S B) of
         Inl e \<Rightarrow> fst (Inr (), st_masked_fill_neg_inf scores m w) = Inl e
       | Inr a \<Rightarrow> \<exists>x. fst (Inr (), st_masked_fill_neg_inf scores m w) = Inr x \<and>
           (load (snd (Inr (), st_masked_fill_neg_inf scores m w)) scores = a \<and>
            h_addr v' < next_addr (snd (Inr (), st_masked_fill_neg_inf scores m w)) \<and>
            denotes (snd (Inr (), st_masked_fill_neg_inf scores m w)) v' V')"
      by (simp add: denotes_def)
  qed
  have "refines (allocated (h_addr v') (\<lambda>w. denotes w v' V') S scores)
     (bind_st (st_causal_mask scores) (\<lambda>m w'. (Inr (), st_masked_fill_neg_inf scores m w')))
     (case causal_mask S of Inl e \<Rightarrow> Inl e | Inr B \<Rightarrow> Inr (masked_fill_neg_inf S B))
     (\<lambda>M u w. load w scores = M \<and> h_addr v' < next_addr w \<and> denotes w v' V')"
    by (rule refines_bind[OF 1]) (rule 2)
  then show ?thesis using True by simp
qed

lemma refines_st_softmax:
  assumes "stable J"
  shows "refines (\<lambda>w. load w h = M \<and> J w \<and> x < next_addr w) (st_softmax h) (Inr (softmax M))
     (allocated x J)"
  by (rule refines_computed[where J = J]) (auto simp: assms st_softmax_def softmax_def)

lemma flash_attn_func_flat:
  "flash_attn_func Q K V dropout_p softmax_scale causal window_size alibi_slopes deterministic =
     (case unpack4 (shape Q) of Inl e \<Rightarrow> Inl e | Inr dims \<Rightarrow>
        (case dims of (b, s, nh, d) \<Rightarrow>
     (case effective_scale softmax_scale d of Inl e \<Rightarrow> Inl e | Inr c \<Rightarrow>
     (case to_heads b s nh d Q of Inl e \<Rightarrow> Inl e | Inr Q' \<Rightarrow>
     (case to_heads b s nh d K of Inl e \<Rightarrow> Inl e | Inr K' \<Rightarrow>
     (case to_heads b s nh d V of Inl e \<Rightarrow> Inl e | Inr V' \<Rightarrow>
     (case attn_scores Q' K' c of Inl e \<Rightarrow> Inl e | Inr S \<Rightarrow>
     (case (if causal
            then (case causal_mask S of Inl e \<Rightarrow> Inl e | Inr B \<Rightarrow> Inr (masked_fill_neg_inf S B))
            else Inr (finite_scores S)) of Inl e \<Rightarrow> Inl e | Inr M \<Rightarrow>
     (case Inr (softmax M) of Inl e \<Rightarrow> Inl e | Inr W \<Rightarrow>
     (case matmul W V' of Inl e \<Rightarrow> Inl e | Inr out \<Rightarrow>
     (case reshape [b, nh, s, d] out of Inl e \<Rightarrow> Inl e | Inr out' \<Rightarrow>
        transpose_t 1 2 out')))))))))))"
  by (auto simp: flash_attn_func_def prepare_def attn_weights_def split: sum.splits prod.splits)

lemma denotes_live: "denotes w h T \<Longrightarrow> h_addr h < next_addr w"
  by (simp add: denotes_def)

lemma refines_tail:
  "refines (\<lambda>w. denotes w q Q \<and> denotes w k K \<and> denotes w v V)
      (bind_st (st_to_heads b s nh d q) (\<lambda>q'.
       bind_st (st_to_heads b s nh d k) (\<lambda>k'.
       bind_st (st_to_heads b s nh d v) (\<lambda>v'.
       bind_st (st_attn_scores q' k' c) (\<lambda>scores.
       bind_st (if causal
                then bind_st (st_causal_mask scores) (\<lambda>m w'. (Inr (), st_masked_fill_neg_inf scores m w'))
                else lift_st (Inr ())) (\<lambda>_.
       bind_st (st_softmax scores) (\<lambda>attn_weights.
       bind_st (st_matmul attn_weights v') (\<lambda>out.
       bind_st (st_reshape [b, nh, s, d] out) (\<lambda>out'.
       lift_st (st_transpose 1 2 out'))))))))))
     (case to_heads b s nh d Q of Inl e \<Rightarrow> Inl e | Inr Q' \<Rightarrow>
     (case to_heads b s nh d K of Inl e \<Rightarrow> Inl e | Inr K' \<Rightarrow>
     (case to_heads b s nh d V of Inl e \<Rightarrow> Inl e | Inr V' \<Rightarrow>
     (case attn_scores Q' K' c of Inl e \<Rightarrow> Inl e | Inr S \<Rightarrow>
     (case (if causal
            then (case causal_mask S of Inl e \<Rightarrow> Inl e | Inr B \<Rightarrow> Inr (masked_fill_neg_inf S B))
            else Inr (finite_scores S)) of Inl e \<Rightarrow> Inl e | Inr M \<Rightarrow>
     (case Inr (softmax M) of Inl e \<Rightarrow> Inl e | Inr W \<Rightarrow>
     (case matmul W V' of Inl e \<Rightarrow> Inl e | Inr out \<Rightarrow>
     (case reshape [b, nh, s, d] out of Inl e \<Rightarrow> Inl e | Inr out' \<Rightarrow>
        transpose_t 1 2 out'))))))))
     (\<lambda>R r w. denotes w r R)"
proof -
  let ?post = "\<lambda>R r w. denotes w r R"
  have s11: "refines (\<lambda>w. denotes w out' OUT' \<and> True) (lift_st (st_transpose 1 2 out')) (transpose_t 1 2 OUT') ?post"
    for out' OUT'
    by (rule refines_weaken[OF refines_st_transpose[where J = "\<lambda>_. True"]]) simp_all
  have s10: "refines (allocated x (\<lambda>_. True) OUT out)
       (bind_st (st_reshape [b, nh, s, d] out) (\<lambda>out'. lift_st (st_transpose 1 2 out')))
       (case reshape [b, nh, s, d] OUT of Inl e \<Rightarrow> Inl e | Inr out' \<Rightarrow> transpose_t 1 2 out') ?post"
    for out OUT x
    by (rule refines_bind[OF refines_weaken[OF refines_st_reshape[where J = "\<lambda>_. True"]] s11])
       (simp_all add: allocated_def)
  have s9: "refines (allocated (h_addr v') (\<lambda>w. denotes w v' V') W a)
       (bind_st (st_matmul a v') (\<lambda>out.
        bind_st (st_reshape [b, nh, s, d] out) (\<lambda>out'. lift_st (st_transpose 1 2 out'))))
       (case matmul W V' of Inl e \<Rightarrow> Inl e | Inr out \<Rightarrow>
       (case reshape [b, nh, s, d] out of Inl e \<Rightarrow> Inl e | Inr out' \<Rightarrow> transpose_t 1 2 out')) ?post"
    for a W v' V'
    by (rule refines_bind[OF refines_weaken[OF refines_st_matmul[where J = "\<lambda>_. True" and x = "h_addr v'"]] s10[where x = "h_addr v'"]])
       (simp_all add: allocated_def)
  have s8: "refines (\<lambda>w. load w scores = M \<and> h_addr v' < next_addr w \<and> denotes w v' V')
       (bind_st (st_softmax scores) (\<lambda>attn_weights.
        bind_st (st_matmul attn_weights v') (\<lambda>out.
        bind_st (st_reshape [b, nh, s, d] out) (\<lambda>out'. lift_st (st_transpose 1 2 out')))))
       (case Inr (softmax M) of Inl e \<Rightarrow> Inl e | Inr W \<Rightarrow>
       (case matmul W V' of Inl e \<Rightarrow> Inl e | Inr out \<Rightarrow>
       (case reshape [b, nh, s, d] out of Inl e \<Rightarrow> Inl e | Inr out' \<Rightarrow> transpose_t 1 2 out'))) ?post"
    for scores M v' V'
    by (rule refines_bind[OF refines_weaken[OF refines_st_softmax[where J = "\<lambda>w. denotes w v' V'" and x = "h_addr v'"]] s9])
       simp_all
  have s7: "refines (allocated (h_addr v') (\<lambda>w. denotes w v' V') S scores)
       (bind_st (if causal
                then bind_st (st_causal_mask scores) (\<lambda>m w'. (Inr (), st_masked_fill_neg_inf scores m w'))
                else lift_st (Inr ())) (\<lambda>_.
        bind_st (st_softmax scores) (\<lambda>attn_weights.
        bind_st (st_matmul attn_weights v') (\<lambda>out.
        bind_st (st_reshape [b, nh, s, d] out) (\<lambda>out'. lift_st (st_transpose 1 2 out'))))))
       (case (if causal
            then (case causal_mask S of Inl e \<Rightarrow> Inl e | Inr B \<Rightarrow> Inr (masked_fill_neg_inf S B))
            else Inr (finite_scores S)) of Inl e \<Rightarrow> Inl e | Inr M \<Rightarrow>
       (case Inr (softmax M) of Inl e \<Rightarrow> Inl e | Inr W \<Rightarrow>
       (case matmul W V' of Inl e \<Rightarrow> Inl e | Inr out \<Rightarrow>
       (case reshape [b, nh, s, d] out of Inl e \<Rightarrow> Inl e | Inr out' \<Rightarrow> transpose_t 1 2 out')))) ?post"
    for scores S v' V'
    by (rule refines_bind[OF refines_masking s8])
  have s6: "refines (\<lambda>w. denotes w v' V' \<and> (denotes w q' Q' \<and> denotes w k' K'))
       (bind_st (st_attn_scores q' k' c) (\<lambda>scores.
        bind_st (if causal
                then bind_st (st_causal_mask scores) (\<lambda>m w'. (Inr (), st_masked_fill_neg_inf scores m w'))
                else lift_st (Inr ())) (\<lambda>_.
        bind_st (st_softmax scores) (\<lambda>attn_weights.
        bind_st (st_matmul attn_weights v') (\<lambda>out.
        bind_st (st_reshape [b, nh, s, d] out) (\<lambda>out'. lift_st (st_transpose 1 2 out')))))))
       (case attn_scores Q' K' c of Inl e \<Rightarrow> Inl e | Inr S \<Rightarrow>
       (case (if causal
            then (case causal_mask S of Inl e \<Rightarrow> Inl e | Inr B \<Rightarrow> Inr (masked_fill_neg_inf S B))
            else Inr (finite_scores S)) of Inl e \<Rightarrow> Inl e | Inr M \<Rightarrow>
       (case Inr (softmax M) of Inl e \<Rightarrow> Inl e | Inr W \<Rightarrow>
       (case matmul W V' of Inl e \<Rightarrow> Inl e | Inr out \<Rightarrow>
       (case reshape [b, nh, s, d] out of Inl e \<Rightarrow> Inl e | Inr out' \<Rightarrow> transpose_t 1 2 out'))))) ?post"
    for q' Q' k' K' v' V'
    by (rule refines_bind[OF refines_weaken[OF refines_st_attn_scores[where J = "\<lambda>w. denotes w v' V'" and x = "h_addr v'"]] s7])
       (auto intro: denotes_live)
  have s5: "refines (\<lambda>w. denotes w k' K' \<and> (denotes w q' Q' \<and> denotes w v V))
       (bind_st (st_to_heads b s nh d v) (\<lambda>v'.
        bind_st (st_attn_scores q' k' c) (\<lambda>scores.
        bind_st (if causal
                then bind_st (st_causal_mask scores) (\<lambda>m w'. (Inr (), st_masked_fill_neg_inf scores m w'))
                else lift_st (Inr ())) (\<lambda>_.
        bind_st (st_softmax scores) (\<lambda>attn_weights.
        bind_st (st_matmul attn_weights v') (\<lambda>out.
        bind_st (st_reshape [b, nh, s, d] out) (\<lambda>out'. lift_st (st_transpose 1 2 out'))))))))
       (case to_heads b s nh d V of Inl e \<Rightarrow> Inl e | Inr V' \<Rightarrow>
       (case attn_scores Q' K' c of Inl e \<Rightarrow> Inl e | Inr S \<Rightarrow>
       (case (if causal
            then (case causal_mask S of Inl e \<Rightarrow> Inl e | Inr B \<Rightarrow> Inr (masked_fill_neg_inf S B))
            else Inr (finite_scores S)) of Inl e \<Rightarrow> Inl e | Inr M \<Rightarrow>
       (case Inr (softmax M) of Inl e \<Rightarrow> Inl e | Inr W \<Rightarrow>
       (case matmul W V' of Inl e \<Rightarrow> Inl e | Inr out \<Rightarrow>
       (case reshape [b, nh, s, d] out of Inl e \<Rightarrow> Inl e | Inr out' \<Rightarrow> transpose_t 1 2 out')))))) ?post"
    for q' Q' k' K'
    by (rule refines_bind[OF refines_weaken[OF refines_st_to_heads[where J = "\<lambda>w. denotes w q' Q' \<and> denotes w k' K'"]] s6])
       simp_all
  have s4: "refines (\<lambda>w. denotes w q' Q' \<and> (denotes w k K \<and> denotes w v V))
       (bind_st (st_to_heads b s nh d k) (\<lambda>k'.
        bind_st (st_to_heads b s nh d v) (\<lambda>v'.
        bind_st (st_attn_scores q' k' c) (\<lambda>scores.
        bind_st (if causal
                then bind_st (st_causal_mask scores) (\<lambda>m w'. (Inr (), st_masked_fill_neg_inf scores m w'))
                else lift_st (Inr ())) (\<lambda>_.
        bind_st (st_softmax scores) (\<lambda>attn_weights.
        bind_st (st_matmul attn_weights v') (\<lambda>out.
        bind_st (st_reshape [b, nh, s, d] out) (\<lambda>out'. lift_st (st_transpose 1 2 out')))))))))
       (case to_heads b s nh d K of Inl e \<Rightarrow> Inl e | Inr K' \<Rightarrow>
       (case to_heads b s nh d V of Inl e \<Rightarrow> Inl e | Inr V' \<Rightarrow>
       (case attn_scores Q' K' c of Inl e \<Rightarrow> Inl e | Inr S \<Rightarrow>
       (case (if causal
            then (case causal_mask S of Inl e \<Rightarrow> Inl e | Inr B \<Rightarrow> Inr (masked_fill_neg_inf S B))
            else Inr (finite_scores S)) of Inl e \<Rightarrow> Inl e | Inr M \<Rightarrow>
       (case Inr (softmax M) of Inl e \<Rightarrow> Inl e | Inr W \<Rightarrow>
       (case matmul W V' of Inl e \<Rightarrow> Inl e | Inr out \<Rightarrow>
       (case reshape [b, nh, s, d] out of Inl e \<Rightarrow> Inl e | Inr out' \<Rightarrow> transpose_t 1 2 out'))))))) ?post"
    for q' Q'
    by (rule refines_bind[OF refines_weaken[OF refines_st_to_heads[where J = "\<lambda>w. denotes w q' Q' \<and> denotes w v V"]] s5])
       simp_all
  show ?thesis
    by (rule refines_bind[OF refines_weaken[OF refines_st_to_heads[where J = "\<lambda>w. denotes w k K \<and> denotes w v V"]] s4])
       simp_all
qed

lemma denotes_warn [simp]: "denotes (warn msg w) h T \<longleftrightarrow> denotes w h T"
  by (simp add: denotes_def warn_def load_def)

lemma bind_st_lift_Inr [simp]: "bind_st (lift_st (Inr a)) g = g a"
  by (rule ext) (simp add: bind_st_def lift_st_def)

lemma bind_st_lift_Inl [simp]: "bind_st (lift_st (Inl e)) g w = (Inl e, w)"
  by (simp add: bind_st_def lift_st_def)

text \<open>
  The call in a process computes what the value-level \<open>flash_attn_func\<close> computes: on tensor
  objects that show \<open>Q\<close>, \<open>K\<close> and \<open>V\<close> it raises the same error, or returns a tensor object that
  shows the same result.
\<close>

lemma call_flash_attn_func_refines:
  assumes "denotes w q Q" "denotes w k K" "denotes w v V"
  shows "case flash_attn_func Q K V dropout_p softmax_scale causal window_size alibi_slopes deterministic of
           Inl e \<Rightarrow>
             fst (call_flash_attn_func q k v dropout_p softmax_scale causal window_size alibi_slopes' deterministic w) = Inl e
         | Inr R \<Rightarrow>
             (\<exists>r. fst (call_flash_attn_func q k v dropout_p softmax_scale causal window_size alibi_slopes' deterministic w) = Inr r \<and>
                  denotes (snd (call_flash_attn_func q k v dropout_p softmax_scale causal window_size alibi_slopes' deterministic w)) r R)"
proof -
  let ?w = "warn ''Using CPU fallback for Flash Attention. Performance will be slower than CUDA implementation.'' w"
  have shp: "shape (h_view q) = shape Q" using denotes_shape[OF assms(1)] by simp
  have I: "denotes ?w q Q \<and> denotes ?w k K \<and> denotes ?w v V" using assms by simp
  show ?thesis
  proof (cases "unpack4 (shape Q)")
    case (Inl e)
    then show ?thesis
      by (simp add: flash_attn_func_flat call_flash_attn_func_def shp)
  next
    case (Inr dims)
    obtain b s nh d where dims: "dims = (b, s, nh, d)" by (cases dims)
    show ?thesis
    proof (cases "effective_scale softmax_scale d")
      case (Inl e)
      then show ?thesis
        using Inr dims
        by (simp add: flash_attn_func_flat call_flash_attn_func_def shp)
    next
      case c: (Inr c)
      let ?tail = "bind_st (st_to_heads b s nh d q) (\<lambda>q'.
       bind_st (st_to_heads b s nh d k) (\<lambda>k'.
       bind_st (st_to_heads b s nh d v) (\<lambda>v'.
       bind_st (st_attn_scores q' k' c) (\<lambda>scores.
       bind_st (if causal
                then bind_st (st_causal_mask scores) (\<lambda>m w'. (Inr (), st_masked_fill_neg_inf scores m w'))
                else lift_st (Inr ())) (\<lambda>_.
       bind_st (st_softmax scores) (\<lambda>attn_weights.
       bind_st (st_matmul attn_weights v') (\<lambda>out.
       bind_st (st_reshape [b, nh, s, d] out) (\<lambda>out'.
       lift_st (st_transpose 1 2 out')))))))))"
      let ?pure = "case to_heads b s nh d Q of Inl e \<Rightarrow> Inl e | Inr Q' \<Rightarrow>
     (case to_heads b s nh d K of Inl e \<Rightarrow> Inl e | Inr K' \<Rightarrow>
     (case to_heads b s nh d V of Inl e \<Rightarrow> Inl e | Inr V' \<Rightarrow>
     (case attn_scores Q' K' c of Inl e \<Rightarrow> Inl e | Inr S \<Rightarrow>
     (case (if causal
            then (case causal_mask S of Inl e \<Rightarrow> Inl e | Inr B \<Rightarrow> Inr (masked_fill_neg_inf S B))
            else Inr (finite_scores S)) of Inl e \<Rightarrow> Inl e | Inr M \<Rightarrow>
     (case Inr (softmax M) of Inl e \<Rightarrow> Inl e | Inr W \<Rightarrow>
     (case matmul W V' of Inl e \<Rightarrow> Inl e | Inr out \<Rightarrow>
     (case reshape [b, nh, s, d] out of Inl e \<Rightarrow> Inl e | Inr out' \<Rightarrow>
        transpose_t 1 2 out')))))))"
      have body: "call_flash_attn_func q k v dropout_p softmax_scale causal window_size alibi_slopes' deterministic w
          = ?tail ?w"
        unfolding call_flash_attn_func_def shp Inr dims bind_st_lift_Inr prod.case c ..
      have pure: "flash_attn_func Q K V dropout_p softmax_scale causal window_size alibi_slopes deterministic = ?pure"
        unfolding flash_attn_func_flat Inr dims sum.case prod.case c ..
      have "case ?pure of
           Inl e \<Rightarrow> fst (?tail ?w) = Inl e
         | Inr R \<Rightarrow> (\<exists>r. fst (?tail ?w) = Inr r \<and> denotes (snd (?tail ?w)) r R)"
        using refines_tail[of q Q k K v V b s nh d c causal] I unfolding refines_def by blast
      then show ?thesis unfolding body pure .
    qed
  qed
qed

lemma example_call:
  "fst (call_flash_attn_func (example_handle 0) (example_handle 0) (example_handle 1)
          0 None True (- 1, - 1) None False example_world)
     = Inr \<lparr>h_addr = 12, h_view = \<lparr>shape = [1, 2, 1, 1], dtype = Float32, data = [0, 1]\<rparr>\<rparr>"
  "load (snd (call_flash_attn_func (example_handle 0) (example_handle 0) (example_handle 1)
          0 None True (- 1, - 1) None False example_world))
        \<lparr>h_addr = 12, h_view = \<lparr>shape = [1, 2, 1, 1], dtype = Float32, data = [0, 1]\<rparr>\<rparr>
     = \<lparr>shape = [1, 2, 1, 1], dtype = Float32, data = [Fin 10, Fin 15]\<rparr>"
  by (simp_all add: st_defs primitive_defs upt_2)

lemma example_denotes:
  "denotes example_world (example_handle 0) \<lparr>shape = [1, 2, 1, 1], dtype = Float32, data = [1, 1]\<rparr>"
  "denotes example_world (example_handle 1) \<lparr>shape = [1, 2, 1, 1], dtype = Float32, data = [10, 20]\<rparr>"
  by (simp_all add: denotes_def example_world_def example_handle_def load_def finite_scores_def well_formed_def)

text \<open>
  C8: \<open>flash_attn_func\<close> called twice on the same arguments gives the same both times: the
  second call, in the state that the first one left, raises the same error or returns a
  tensor with the same shape, numeric class and elements, and the first result still shows
  what it showed.
\<close>

theorem flash_attn_func_deterministic:
  assumes "denotes w q Q" "denotes w k K" "denotes w v V"
  shows "let first = call_flash_attn_func q k v dropout_p softmax_scale causal window_size alibi_slopes deterministic w;
             second = call_flash_attn_func q k v dropout_p softmax_scale causal window_size alibi_slopes deterministic (snd first)
         in case fst first of
              Inl e \<Rightarrow> fst second = Inl e
            | Inr h1 \<Rightarrow> (\<exists>h2. fst second = Inr h2 \<and> load (snd second) h2 = load (snd first) h1 \<and>
                              load (snd second) h1 = load (snd first) h1)"
proof -
  let ?first = "call_flash_attn_func q k v dropout_p softmax_scale causal window_size alibi_slopes deterministic w"
  let ?second = "call_flash_attn_func q k v dropout_p softmax_scale causal window_size alibi_slopes deterministic (snd ?first)"
  let ?P = "flash_attn_func Q K V dropout_p softmax_scale causal window_size None deterministic"
  have f1: "frame (next_addr w) w (snd ?first)" by (rule frame_call_flash_attn_func)
  have f2: "frame (next_addr (snd ?first)) (snd ?first) (snd ?second)" by (rule frame_call_flash_attn_func)
  have d1: "denotes (snd ?first) q Q" "denotes (snd ?first) k K" "denotes (snd ?first) v V"
    using assms f1 by (auto intro: denotes_frame)
  note r1 = call_flash_attn_func_refines[OF assms, where dropout_p = dropout_p and softmax_scale = softmax_scale
      and causal = causal and window_size = window_size and alibi_slopes = None and alibi_slopes' = alibi_slopes
      and deterministic = deterministic]
  note r2 = call_flash_attn_func_refines[OF d1, where dropout_p = dropout_p and softmax_scale = softmax_scale
      and causal = causal and window_size = window_size and alibi_slopes = None and alibi_slopes' = alibi_slopes
      and deterministic = deterministic]
  have "case fst ?first of
              Inl e \<Rightarrow> fst ?second = Inl e
            | Inr h1 \<Rightarrow> (\<exists>h2. fst ?second = Inr h2 \<and> load (snd ?second) h2 = load (snd ?first) h1 \<and>
                              load (snd ?second) h1 = load (snd ?first) h1)"
  proof (cases ?P)
    case (Inl e)
    then show ?thesis using r1 r2 by simp
  next
    case (Inr R)
    then obtain h1 h2 where h: "fst ?first = Inr h1" "denotes (snd ?first) h1 R"
      "fst ?second = Inr h2" "denotes (snd ?second) h2 R"
      using r1 r2 by auto
    have "denotes (snd ?second) h1 R" using h(2) f2 by (rule denotes_frame)
    then show ?thesis using h by (simp add: denotes_def)
  qed
  then show ?thesis by (simp add: Let_def)
qed

theorem flash_attn_func_deterministic_witness:
  "\<exists>h2. fst (call_flash_attn_func (example_handle 0) (example_handle 0) (example_handle 1)
              0 None True (- 1, - 1) None False
              (snd (call_flash_attn_func (example_handle 0) (example_handle 0) (example_handle 1)
                      0 None True (- 1, - 1) None False example_world))) = Inr h2
       \<and> load (snd (call_flash_attn_func (example_handle 0) (example_handle 0) (example_handle 1)
              0 None True (- 1, - 1) None False
              (snd (call_flash_attn_func (example_handle 0) (example_handle 0) (example_handle 1)
                      0 None True (- 1, - 1) None False example_world)))) h2
         = \<lparr>shape = [1, 2, 1, 1], dtype = Float32, data = [Fin 10, Fin 15]\<rparr>"
proof -
  note d = flash_attn_func_deterministic[OF example_denotes(1) example_denotes(1) example_denotes(2),
      where dropout_p = 0 and softmax_scale = None and causal = True and window_size = "(- 1, - 1)"
        and alibi_slopes = None and deterministic = False]
  show ?thesis
    using d[unfolded Let_def example_call(1) sum.case example_call(2)] by blast
qed

section \<open>Parameters without effect\<close>

lemma same_store_load: "same_store w w' \<Longrightarrow> load w h = load w' h"
  by (simp add: same_store_def load_def)

lemma same_store_operand: "same_store w w' \<Longrightarrow> operand w h = operand w' h"
  unfolding operand_def same_store_load[of w w' h] ..

lemma store_only_bind: "store_only f \<Longrightarrow> (\<And>x. store_only (g x)) \<Longrightarrow> store_only (bind_st f g)"
  unfolding store_only_def
proof (intro allI impI)
  fix w w' :: world
  assume f: "\<forall>w w'. same_store w w' \<longrightarrow> fst (f w) = fst (f w') \<and> same_store (snd (f w)) (snd (f w'))"
    and g: "\<And>x. \<forall>w w'. same_store w w' \<longrightarrow> fst (g x w) = fst (g x w') \<and> same_store (snd (g x w)) (snd (g x w'))"
    and s: "same_store w w'"
  obtain r u where fw: "f w = (r, u)" by (cases "f w")
  obtain r' u' where fw': "f w' = (r', u')" by (cases "f w'")
  have rr: "r = r'" "same_store u u'" using f s fw fw' by (fastforce, fastforce)
  show "fst (bind_st f g w) = fst (bind_st f g w') \<and> same_store (snd (bind_st f g w)) (snd (bind_st f g w'))"
  proof (cases r)
    case (Inl e)
    then show ?thesis using fw fw' rr by (simp add: bind_st_def)
  next
    case (Inr x)
    then show ?thesis using fw fw' rr g[of x] by (simp add: bind_st_def)
  qed
qed

lemma store_only_lift [simp]: "store_only (lift_st r)"
  by (simp add: store_only_def lift_st_def)

lemma store_only_st_new [simp]: "store_only (st_new t)"
  by (simp add: store_only_def st_new_def new_tensor_def same_store_def)

lemma store_only_computed:
  assumes "\<And>w w'. same_store w w' \<Longrightarrow> p w = p w'"
  shows "store_only (\<lambda>w. case p w of Inl e \<Rightarrow> (Inl e, w) | Inr t \<Rightarrow> st_new t w)"
  unfolding store_only_def
proof (intro allI impI)
  fix w w' :: world
  assume s: "same_store w w'"
  have p: "p w = p w'" by (rule assms[OF s])
  show "fst (case p w of Inl e \<Rightarrow> (Inl e, w) | Inr t \<Rightarrow> st_new t w) =
        fst (case p w' of Inl e \<Rightarrow> (Inl e, w') | Inr t \<Rightarrow> st_new t w') \<and>
        same_store (snd (case p w of Inl e \<Rightarrow> (Inl e, w) | Inr t \<Rightarrow> st_new t w))
                   (snd (case p w' of Inl e \<Rightarrow> (Inl e, w') | Inr t \<Rightarrow> st_new t w'))"
  proof (cases "p w'")
    case (Inl e)
    then show ?thesis using p s by simp
  next
    case (Inr t)
    then show ?thesis using p s store_only_st_new[of t] unfolding store_only_def by simp
  qed
qed

lemma store_only_st_matmul [simp]: "store_only (st_matmul a b)"
proof -
  have "st_matmul a b = (\<lambda>w. case (case operand w a of Inl e \<Rightarrow> Inl e | Inr ta \<Rightarrow>
            (case operand w b of Inl e \<Rightarrow> Inl e | Inr tb \<Rightarrow> matmul ta tb)) of
          Inl e \<Rightarrow> (Inl e, w) | Inr t \<Rightarrow> st_new t w)"
    by (rule ext) (simp add: st_matmul_def split: sum.splits)
  moreover have "store_only \<dots>"
    by (rule store_only_computed) (simp add: same_store_operand[of _ _ a] same_store_operand[of _ _ b] cong: sum.case_cong)
  ultimately show ?thesis by simp
qed

lemma store_only_st_mul_scalar [simp]: "store_only (st_mul_scalar h c)"
proof -
  have "st_mul_scalar h c = (\<lambda>w. case (case operand w h of Inl e \<Rightarrow> Inl e | Inr t \<Rightarrow> Inr (mul_scalar t c)) of
          Inl e \<Rightarrow> (Inl e, w) | Inr t \<Rightarrow> st_new t w)"
    by (rule ext) (simp add: st_mul_scalar_def split: sum.splits)
  moreover have "store_only \<dots>"
    by (rule store_only_computed) (simp add: same_store_operand[of _ _ h])
  ultimately show ?thesis by simp
qed

lemma store_only_st_ones_like [simp]: "store_only (st_ones_like h)"
proof -
  have "st_ones_like h = (\<lambda>w. case Inr (ones_like (load w h)) of
          Inl e \<Rightarrow> (Inl e, w) | Inr t \<Rightarrow> st_new t w)"
    by (rule ext) (simp add: st_ones_like_def)
  moreover have "store_only \<dots>"
    by (rule store_only_computed) (simp add: same_store_load[of _ _ h])
  ultimately show ?thesis by simp
qed

lemma store_only_st_triu [simp]: "store_only (st_triu g h)"
proof -
  have "st_triu g h = (\<lambda>w. case (case operand w h of Inl e \<Rightarrow> Inl e | Inr t \<Rightarrow> triu g t) of
          Inl e \<Rightarrow> (Inl e, w) | Inr t \<Rightarrow> st_new t w)"
    by (rule ext) (simp add: st_triu_def split: sum.splits)
  moreover have "store_only \<dots>"
    by (rule store_only_computed) (simp add: same_store_operand[of _ _ h])
  ultimately show ?thesis by simp
qed

lemma store_only_st_bool [simp]: "store_only (st_bool h)"
proof -
  have "st_bool h = (\<lambda>w. case (case operand w h of Inl e \<Rightarrow> Inl e | Inr t \<Rightarrow> Inr (flags (to_bool t))) of
          Inl e \<Rightarrow> (Inl e, w) | Inr t \<Rightarrow> st_new t w)"
    by (rule ext) (simp add: st_bool_def split: sum.splits)
  moreover have "store_only \<dots>"
    by (rule store_only_computed) (simp add: same_store_operand[of _ _ h])
  ultimately show ?thesis by simp
qed

lemma store_only_st_softmax [simp]: "store_only (st_softmax h)"
proof -
  have "st_softmax h = (\<lambda>w. case Inr (softmax (load w h)) of
          Inl e \<Rightarrow> (Inl e, w) | Inr t \<Rightarrow> st_new t w)"
    by (rule ext) (simp add: st_softmax_def)
  moreover have "store_only \<dots>"
    by (rule store_only_computed) (simp add: same_store_load[of _ _ h])
  ultimately show ?thesis by simp
qed

lemma store_only_st_reshape [simp]: "store_only (st_reshape shp h)"
  unfolding store_only_def
proof (intro allI impI)
  fix w w' :: world
  assume s: "same_store w w'"
  have l: "load w h = load w' h" by (rule same_store_load[OF s])
  have r: "reshape_as_view w = reshape_as_view w'" "next_addr w = next_addr w'" "cells w = cells w'"
    using s by (simp_all add: same_store_def)
  show "fst (st_reshape shp h w) = fst (st_reshape shp h w') \<and>
        same_store (snd (st_reshape shp h w)) (snd (st_reshape shp h w'))"
    using s unfolding st_reshape_def l r(1)
    by (simp add: new_tensor_def same_store_def r(2,3) split: sum.splits)
qed

lemma store_only_st_to_heads [simp]: "store_only (st_to_heads b s nh d x)"
  unfolding st_to_heads_def by (intro store_only_bind) simp_all

lemma store_only_st_attn_scores [simp]: "store_only (st_attn_scores q k c)"
  unfolding st_attn_scores_def by (intro store_only_bind) simp_all

lemma store_only_st_causal_mask [simp]: "store_only (st_causal_mask scores)"
  unfolding st_causal_mask_def by (intro store_only_bind) simp_all

lemma store_only_masking [simp]:
  "store_only (if causal
          then bind_st (st_causal_mask scores) (\<lambda>m w'. (Inr (), st_masked_fill_neg_inf scores m w'))
          else lift_st (Inr ()))"
proof (cases causal)
  case True
  have "store_only (bind_st (st_causal_mask scores) (\<lambda>m w'. (Inr (), st_masked_fill_neg_inf scores m w')))"
  proof (rule store_only_bind)
    show "store_only (st_causal_mask scores)" by simp
  next
    fix m
    show "store_only (\<lambda>w'. (Inr (), st_masked_fill_neg_inf scores m w'))"
      by (simp add: store_only_def st_masked_fill_neg_inf_def same_store_def load_def)
  qed
  then show ?thesis using True by simp
next
  case False
  then show ?thesis by simp
qed

lemma same_store_warn [simp]: "same_store (warn msg w) w"
  by (simp add: same_store_def warn_def)

lemma store_only_call_body:
  "store_only
     (bind_st (lift_st (unpack4 (shape (h_view q)))) (\<lambda>(batch, seqlen, nheads, headdim).
      bind_st (lift_st (effective_scale softmax_scale headdim)) (\<lambda>c.
      bind_st (st_to_heads batch seqlen nheads headdim q) (\<lambda>q'.
      bind_st (st_to_heads batch seqlen nheads headdim k) (\<lambda>k'.
      bind_st (st_to_heads batch seqlen nheads headdim v) (\<lambda>v'.
      bind_st (st_attn_scores q' k' c) (\<lambda>scores.
      bind_st (if causal
               then bind_st (st_causal_mask scores) (\<lambda>m w'. (Inr (), st_masked_fill_neg_inf scores m w'))
               else lift_st (Inr ())) (\<lambda>_.
      bind_st (st_softmax scores) (\<lambda>attn_weights.
      bind_st (st_matmul attn_weights v') (\<lambda>out.
      bind_st (st_reshape [batch, nheads, seqlen, headdim] out) (\<lambda>out'.
      lift_st (st_transpose 1 2 out'))))))))))))"
  apply (rule store_only_bind, simp)
  apply (simp only: split_paired_all prod.case)
  apply (intro store_only_bind store_only_masking)
            apply simp_all
  done

lemma call_flash_attn_func_store_only:
  "same_store w w' \<Longrightarrow>
   fst (call_flash_attn_func q k v dropout_p softmax_scale causal window_size alibi_slopes deterministic w)
     = fst (call_flash_attn_func q k v dropout_p softmax_scale causal window_size alibi_slopes deterministic w')
   \<and> same_store
       (snd (call_flash_attn_func q k v dropout_p softmax_scale causal window_size alibi_slopes deterministic w))
       (snd (call_flash_attn_func q k v dropout_p softmax_scale causal window_size alibi_slopes deterministic w'))"
proof -
  assume s: "same_store w w'"
  have "same_store (warn ''Using CPU fallback for Flash Attention. Performance will be slower than CUDA implementation.'' w)
     (warn ''Using CPU fallback for Flash Attention. Performance will be slower than CUDA implementation.'' w')"
    using s by (simp add: same_store_def warn_def)
  then show ?thesis
    unfolding call_flash_attn_func_def
    using store_only_call_body[of q softmax_scale k v causal, unfolded store_only_def] by blast
qed

text \<open>
  C5: \<open>flash_attn_varlen_func\<close> returns what \<open>flash_attn_func\<close> returns on the same query,
  key, value, \<open>dropout_p\<close>, \<open>softmax_scale\<close>, \<open>causal\<close>, \<open>window_size\<close>, \<open>alibi_slopes\<close> and
  \<open>deterministic\<close>, whatever \<open>cu_seqlens_q\<close>, \<open>cu_seqlens_k\<close>, \<open>max_seqlen_q\<close> and
  \<open>max_seqlen_k\<close> are. As calls in a process the two return the same tensor object and leave
  the same storages; they differ in the warnings issued.
\<close>

theorem flash_attn_varlen_func_is_flash_attn_func:
  "flash_attn_varlen_func q k v cu_seqlens_q cu_seqlens_k max_seqlen_q max_seqlen_k
       dropout_p softmax_scale causal window_size alibi_slopes deterministic
   = flash_attn_func q k v dropout_p softmax_scale causal window_size alibi_slopes deterministic
   \<and>
   flash_attn_varlen_func q k v cu_seqlens_q' cu_seqlens_k' max_seqlen_q' max_seqlen_k'
       dropout_p softmax_scale causal window_size alibi_slopes deterministic
   = flash_attn_varlen_func q k v cu_seqlens_q cu_seqlens_k max_seqlen_q max_seqlen_k
       dropout_p softmax_scale causal window_size alibi_slopes deterministic
   \<and>
   fst (call_flash_attn_varlen_func hq hk hv cu_q cu_k max_seqlen_q max_seqlen_k
       dropout_p softmax_scale causal window_size slopes deterministic w)
   = fst (call_flash_attn_func hq hk hv dropout_p softmax_scale causal window_size slopes deterministic w)
   \<and>
   cells (snd (call_flash_attn_varlen_func hq hk hv cu_q cu_k max_seqlen_q max_seqlen_k
       dropout_p softmax_scale causal window_size slopes deterministic w))
   = cells (snd (call_flash_attn_func hq hk hv dropout_p softmax_scale causal window_size slopes deterministic w))"
  using call_flash_attn_func_store_only[OF same_store_warn,
      of hq hk hv dropout_p softmax_scale causal window_size slopes deterministic
      "''Variable-length Flash Attention fallback not fully implemented. Using basic implementation.''" w]
  by (simp add: flash_attn_varlen_func_def call_flash_attn_varlen_func_def same_store_def)

text \<open>
  C7: two calls of \<open>flash_attn_func\<close> that agree on query, key, value, \<open>softmax_scale\<close> and
  \<open>causal\<close> return the same, however they differ in \<open>dropout_p\<close>, \<open>window_size\<close>,
  \<open>alibi_slopes\<close> and \<open>deterministic\<close>; as calls in a process they also leave the same state.
\<close>

theorem flash_attn_func_ignores_unsupported:
  "flash_attn_func q k v dropout_p softmax_scale causal window_size alibi_slopes deterministic
   = flash_attn_func q k v dropout_p' softmax_scale causal window_size' alibi_slopes' deterministic'
   \<and>
   call_flash_attn_func hq hk hv dropout_p softmax_scale causal window_size slopes deterministic w
   = call_flash_attn_func hq hk hv dropout_p' softmax_scale causal window_size' slopes' deterministic' w"
  by (simp add: flash_attn_func_def call_flash_attn_func_def)

end
